theory Spec2Isabelle
  imports Main "HOL-Library.Sublist" "HOL-Library.List_Lexorder"
begin

section \<open>Strings\<close>

text \<open>
  A \<open>wchar_t\<close> code unit is an integer; a \<open>wcstring\<close> (and the contents of a
  \<open>const wchar_t *\<close> up to, and without, its terminating NUL) is the list of its code
  units. \<open>operator<\<close> on \<open>std::wstring\<close> is the lexicographic order of the code units,
  which is the order of \<open>HOL-Library.List_Lexorder\<close>: a proper prefix is smaller.
  A \<open>wcstring\<close> may hold a NUL anywhere.
\<close>

type_synonym wchar_t = int

type_synonym wcstring = "wchar_t list"

text \<open>
  The string a \<open>const wchar_t *\<close> denotes: the code units of the memory it points to, up
  to the first NUL. \<open>wcstring::c_str()\<close> points to the code units of the string (followed
  by a NUL), so as a C string a \<open>wcstring\<close> is cut at its first NUL.
\<close>

definition c_str :: "wcstring \<Rightarrow> wcstring" where
  "c_str s = takeWhile (\<lambda>c. c \<noteq> 0) s"

text \<open>
  Modelled from the spec: \<open>string_prefixes_string\<close> is declared in \<open>common.h\<close>, which is
  not among the sources. \<open>find_escape_code\<close> calls it with two \<open>const wchar_t *\<close>, and the
  spec of \<open>find_escape_code\<close> reads "return \<open>|c|\<close> iff \<open>c\<close> is a prefix of \<open>s\<close>": the helper
  is the prefix test on the two C strings.
\<close>

definition string_prefixes_string :: "wcstring \<Rightarrow> wcstring \<Rightarrow> bool" where
  "string_prefixes_string proposed_prefix str = prefix (c_str proposed_prefix) (c_str str)"

section \<open>Screen lines (\<open>line_t\<close>)\<close>

text \<open>
  \<open>highlight_spec_t\<close> comes from \<open>highlight.h\<close>; the screen code only stores and compares
  it, so it is an opaque token here.
\<close>

type_synonym highlight_spec_t = nat

record line_t =
  text_l :: "wchar_t list"
  colors :: "highlight_spec_t list"
  is_soft_wrapped :: bool
  indentation :: nat

datatype cpp_error = Out_Of_Range

text \<open>The constructor \<open>line_t()\<close>.\<close>

definition line_t_new :: line_t where
  "line_t_new = \<lparr>text_l = [], colors = [], is_soft_wrapped = False, indentation = 0\<rparr>"

text \<open>\<open>line_t::clear\<close>.\<close>

definition clear_line :: "line_t \<Rightarrow> line_t" where
  "clear_line l = l\<lparr>text_l := [], colors := []\<rparr>"

text \<open>\<open>line_t::append(wchar_t, highlight_spec_t)\<close>.\<close>

definition append_char :: "line_t \<Rightarrow> wchar_t \<Rightarrow> highlight_spec_t \<Rightarrow> line_t" where
  "append_char l txt color = l\<lparr>text_l := text_l l @ [txt], colors := colors l @ [color]\<rparr>"

text \<open>
  \<open>line_t::append(const wchar_t *, highlight_spec_t)\<close>: the loop
  \<open>for (i = 0; txt[i]; i++)\<close> over the memory \<open>txt\<close> points to. The list is that memory;
  the loop stops at the first NUL (a list without one ends the loop at its end).
\<close>

fun append_str :: "line_t \<Rightarrow> wchar_t list \<Rightarrow> highlight_spec_t \<Rightarrow> line_t" where
  "append_str l [] color = l"
| "append_str l (c # txt) color =
     (if c = 0 then l else append_str (append_char l c color) txt color)"

text \<open>\<open>line_t::size\<close>.\<close>

definition size_line :: "line_t \<Rightarrow> nat" where
  "size_line l = length (text_l l)"

text \<open>\<open>line_t::char_at\<close> and \<open>color_at\<close>: \<open>vector::at\<close> throws out of range.\<close>

definition char_at :: "line_t \<Rightarrow> nat \<Rightarrow> cpp_error + wchar_t" where
  "char_at l idx = (if idx < length (text_l l) then Inr (text_l l ! idx) else Inl Out_Of_Range)"

definition color_at :: "line_t \<Rightarrow> nat \<Rightarrow> cpp_error + highlight_spec_t" where
  "color_at l idx = (if idx < length (colors l) then Inr (colors l ! idx) else Inl Out_Of_Range)"

text \<open>\<open>line_t::append_line\<close>.\<close>

definition append_line :: "line_t \<Rightarrow> line_t \<Rightarrow> line_t" where
  "append_line l line =
     l\<lparr>text_l := text_l l @ text_l line, colors := colors l @ colors line\<rparr>"

text \<open>The invariant of a line: as many colors as characters.\<close>

definition line_ok :: "line_t \<Rightarrow> bool" where
  "line_ok l \<longleftrightarrow> length (text_l l) = length (colors l)"

section \<open>The layout cache (\<open>layout_cache_t\<close>)\<close>

record prompt_layout_t =
  line_count :: nat
  max_line_width :: nat
  last_line_width :: nat

text \<open>
  The private members \<open>esc_cache_\<close> and \<open>prompt_cache_\<close> (a name cannot end in an
  underscore here).
\<close>

record layout_cache_t =
  esc_cache :: "wcstring list"
  prompt_cache :: "(wcstring \<times> prompt_layout_t) list"

definition prompt_cache_max_size :: nat where
  "prompt_cache_max_size = 8"

text \<open>A default-constructed cache, which is also what \<open>clear\<close> leaves.\<close>

definition layout_cache_new :: layout_cache_t where
  "layout_cache_new = \<lparr>esc_cache = [], prompt_cache = []\<rparr>"

definition clear_cache :: "layout_cache_t \<Rightarrow> layout_cache_t" where
  "clear_cache c = c\<lparr>esc_cache := [], prompt_cache := []\<rparr>"

definition esc_cache_size :: "layout_cache_t \<Rightarrow> nat" where
  "esc_cache_size c = length (esc_cache c)"

text \<open>
  \<open>std::upper_bound\<close> is the standard library's binary search: over the range of \<open>len\<close>
  elements starting at index \<open>first\<close> it halves the range, going left when the value
  is smaller than the middle element and right of the middle otherwise. The result is an
  index into the vector (\<open>begin() + index\<close>).
\<close>

function upper_bound_from :: "'a::linorder list \<Rightarrow> 'a \<Rightarrow> nat \<Rightarrow> nat \<Rightarrow> nat" where
  "upper_bound_from xs v first len =
     (if len = 0 then first
      else let half = len div 2; middle = first + half
           in if v < xs ! middle then upper_bound_from xs v first half
              else upper_bound_from xs v (middle + 1) (len - half - 1))"
  by pat_completeness auto
termination
  by (relation "measure (\<lambda>(xs, v, first, len). len)") auto

declare upper_bound_from.simps [simp del]

definition upper_bound :: "'a::linorder list \<Rightarrow> 'a \<Rightarrow> nat" where
  "upper_bound xs v = upper_bound_from xs v 0 (length xs)"

text \<open>
  \<open>layout_cache_t::add_escape_code\<close>: \<open>pos\<close> is the iterator \<open>where\<close>; \<open>emplace\<close> inserts
  before it.
\<close>

definition add_escape_code :: "wcstring \<Rightarrow> layout_cache_t \<Rightarrow> layout_cache_t" where
  "add_escape_code str c =
     (let pos = upper_bound (esc_cache c) str
      in if pos = 0 \<or> esc_cache c ! (pos - 1) \<noteq> str
         then c\<lparr>esc_cache := take pos (esc_cache c) @ str # drop pos (esc_cache c)\<rparr>
         else c)"

text \<open>
  \<open>layout_cache_t::find_escape_code\<close>. \<open>entry\<close> is a \<open>const wchar_t *\<close>: the list is the
  memory it points to, and the comparisons of \<open>std::upper_bound\<close> read it as a C string.
  The candidate is passed on as \<open>candidate.c_str()\<close>, which \<open>string_prefixes_string\<close>
  reads up to its first NUL, while the result is \<open>candidate.size()\<close>, the whole length.
\<close>

definition find_escape_code :: "layout_cache_t \<Rightarrow> wcstring \<Rightarrow> nat" where
  "find_escape_code c entry =
     (let pos = upper_bound (esc_cache c) (c_str entry)
      in if pos \<noteq> 0
         then (let candidate = esc_cache c ! (pos - 1)
               in if string_prefixes_string candidate entry then length candidate else 0)
         else 0)"

text \<open>A sequence of \<open>add_escape_code\<close> calls on a new cache, first call first.\<close>

definition add_escape_codes :: "wcstring list \<Rightarrow> layout_cache_t" where
  "add_escape_codes strs = foldl (\<lambda>c str. add_escape_code str c) layout_cache_new strs"

text \<open>No entry holds a NUL.\<close>

definition nul_free :: "wcstring list \<Rightarrow> bool" where
  "nul_free xs \<longleftrightarrow> (\<forall>e \<in> set xs. 0 \<notin> set e)"

text \<open>No entry is a prefix of another entry.\<close>

definition prefix_free :: "wcstring list \<Rightarrow> bool" where
  "prefix_free xs \<longleftrightarrow> (\<forall>a \<in> set xs. \<forall>b \<in> set xs. a \<noteq> b \<longrightarrow> \<not> prefix a b)"

text \<open>
  Modelled from the spec: \<open>find_prompt_layout\<close> and \<open>add_prompt_layout\<close> are only declared
  in the header; their bodies are not among the sources. The spec reads:
  "\<open>find_prompt_layout(p)\<close>: linear scan the LRU; on hit, splice entry to front and return
  it" and "\<open>add_prompt_layout(p, layout)\<close>: push to front; if size exceeds 8, drop the
  last". \<open>prompt_scan\<close> is the linear scan: the index of the first entry for the prompt.
\<close>

fun prompt_scan :: "wcstring \<Rightarrow> (wcstring \<times> prompt_layout_t) list \<Rightarrow> nat option" where
  "prompt_scan inp [] = None"
| "prompt_scan inp (e # es) =
     (if fst e = inp then Some 0 else map_option Suc (prompt_scan inp es))"

definition find_prompt_layout ::
    "wcstring \<Rightarrow> layout_cache_t \<Rightarrow> prompt_layout_t option \<times> layout_cache_t" where
  "find_prompt_layout inp c =
     (case prompt_scan inp (prompt_cache c) of
        None \<Rightarrow> (None, c)
      | Some i \<Rightarrow>
          (Some (snd (prompt_cache c ! i)),
           c\<lparr>prompt_cache :=
               prompt_cache c ! i # take i (prompt_cache c) @ drop (Suc i) (prompt_cache c)\<rparr>))"

definition add_prompt_layout ::
    "wcstring \<Rightarrow> prompt_layout_t \<Rightarrow> layout_cache_t \<Rightarrow> layout_cache_t" where
  "add_prompt_layout inp layout c =
     (let pushed = (inp, layout) # prompt_cache c
      in c\<lparr>prompt_cache :=
             (if length pushed > prompt_cache_max_size then butlast pushed else pushed)\<rparr>)"

text \<open>The calls that change a layout cache, and a sequence of them on a new cache.\<close>

datatype cache_call =
    Add_Escape_Code wcstring
  | Add_Prompt_Layout wcstring prompt_layout_t
  | Find_Prompt_Layout wcstring
  | Clear

fun cache_step :: "layout_cache_t \<Rightarrow> cache_call \<Rightarrow> layout_cache_t" where
  "cache_step c (Add_Escape_Code str) = add_escape_code str c"
| "cache_step c (Add_Prompt_Layout inp layout) = add_prompt_layout inp layout c"
| "cache_step c (Find_Prompt_Layout inp) = snd (find_prompt_layout inp c)"
| "cache_step c Clear = clear_cache c"

definition cache_run :: "cache_call list \<Rightarrow> layout_cache_t" where
  "cache_run calls = foldl cache_step layout_cache_new calls"

section \<open>Escape sequences (\<open>escape_code_length\<close>)\<close>

text \<open>
  Modelled from the spec: \<open>escape_code_length\<close> is only declared in the header. The spec
  (section 4.1) lists what it recognizes, in order: (1) a string of \<open>esc_cache\<close> that is a
  prefix of \<open>s\<close>, found by \<open>find_escape_code\<close>; (2) CSI: ESC \<open>[\<close>, a run of parameter bytes
  (0x30 to 0x3F) and intermediate bytes (0x20 to 0x2F), a final byte (0x40 to 0x7E);
  (3) OSC: ESC \<open>]\<close> up to BEL (0x07) or ST (ESC \<open>\\<close>); (4) ESC and one byte in 0x20 to
  0x7E that starts neither a CSI nor an OSC; (5) a known capability string that is a
  prefix of \<open>s\<close>. The capability strings come from the terminal database and are a
  parameter. Code units in decimal: ESC 27, \<open>[\<close> 91, \<open>]\<close> 93, \<open>\\<close> 92, BEL 7, 0x20 32,
  0x3F 63, 0x40 64, 0x7E 126.
\<close>

definition is_csi_run_byte :: "wchar_t \<Rightarrow> bool" where
  "is_csi_run_byte b \<longleftrightarrow> 32 \<le> b \<and> b \<le> 63"

definition is_csi_final_byte :: "wchar_t \<Rightarrow> bool" where
  "is_csi_final_byte b \<longleftrightarrow> 64 \<le> b \<and> b \<le> 126"

definition csi_length :: "wcstring \<Rightarrow> nat" where
  "csi_length s =
     (case s of
        e # b # rest \<Rightarrow>
          if e = 27 \<and> b = 91
          then (case dropWhile is_csi_run_byte rest of
                  [] \<Rightarrow> 0
                | f # _ \<Rightarrow>
                    if is_csi_final_byte f
                    then 2 + length (takeWhile is_csi_run_byte rest) + 1 else 0)
          else 0
      | _ \<Rightarrow> 0)"

text \<open>
  The scan of an OSC body: the number of code units up to and including the first BEL
  or ST, 0 when the string ends before either.
\<close>

fun osc_end :: "wcstring \<Rightarrow> nat" where
  "osc_end [] = 0"
| "osc_end (c # cs) =
     (if c = 7 then 1
      else if c = 27 \<and> cs \<noteq> [] \<and> hd cs = 92 then 2
      else (case osc_end cs of 0 \<Rightarrow> 0 | Suc n \<Rightarrow> Suc (Suc n)))"

definition osc_length :: "wcstring \<Rightarrow> nat" where
  "osc_length s =
     (case s of
        e # b # rest \<Rightarrow>
          if e = 27 \<and> b = 93
          then (case osc_end rest of 0 \<Rightarrow> 0 | Suc n \<Rightarrow> 2 + Suc n)
          else 0
      | _ \<Rightarrow> 0)"

definition two_byte_length :: "wcstring \<Rightarrow> nat" where
  "two_byte_length s =
     (case s of
        e # b # _ \<Rightarrow>
          if e = 27 \<and> 32 \<le> b \<and> b \<le> 126 \<and> b \<noteq> 91 \<and> b \<noteq> 93 then 2 else 0
      | _ \<Rightarrow> 0)"

text \<open>
  Step 5 returns the length of a capability string that is a prefix of \<open>s\<close>. Where several
  are, the longest is taken, so that the result does not depend on the order in which
  the capabilities are listed.
\<close>

fun capability_length :: "wcstring list \<Rightarrow> wcstring \<Rightarrow> nat" where
  "capability_length [] s = 0"
| "capability_length (cap # caps) s =
     (if prefix cap s then max (length cap) (capability_length caps s)
      else capability_length caps s)"

definition escape_code_length :: "layout_cache_t \<Rightarrow> wcstring list \<Rightarrow> wcstring \<Rightarrow> nat" where
  "escape_code_length c caps s =
     (if find_escape_code c s \<noteq> 0 then find_escape_code c s
      else if csi_length s \<noteq> 0 then csi_length s
      else if osc_length s \<noteq> 0 then osc_length s
      else if two_byte_length s \<noteq> 0 then two_byte_length s
      else capability_length caps s)"

text \<open>
  What a single escape sequence is, in the words of the same list: the grammar of each
  kind, read off without reference to the scanning functions above. An OSC ends at its
  first terminator, so its body holds neither BEL nor ST.
\<close>

definition csi_sequence :: "wcstring \<Rightarrow> bool" where
  "csi_sequence t \<longleftrightarrow>
     (\<exists>run f. t = [27, 91] @ run @ [f] \<and> (\<forall>b \<in> set run. 32 \<le> b \<and> b \<le> 63) \<and>
        64 \<le> f \<and> f \<le> 126)"

definition osc_sequence :: "wcstring \<Rightarrow> bool" where
  "osc_sequence t \<longleftrightarrow>
     (\<exists>body fin. t = [27, 93] @ body @ fin \<and> (fin = [7] \<or> fin = [27, 92]) \<and>
        7 \<notin> set body \<and> \<not> sublist [27, 92] body)"

definition two_byte_sequence :: "wcstring \<Rightarrow> bool" where
  "two_byte_sequence t \<longleftrightarrow>
     (\<exists>b. t = [27, b] \<and> 32 \<le> b \<and> b \<le> 126 \<and> b \<noteq> 91 \<and> b \<noteq> 93)"

definition escape_sequence :: "layout_cache_t \<Rightarrow> wcstring list \<Rightarrow> wcstring \<Rightarrow> bool" where
  "escape_sequence c caps t \<longleftrightarrow>
     t \<noteq> [] \<and>
     (t \<in> set (esc_cache c) \<or> csi_sequence t \<or> osc_sequence t \<or> two_byte_sequence t \<or>
      t \<in> set caps)"

section \<open>Redirections (\<open>redirection.cpp\<close>)\<close>

datatype redirection_mode_t = mode_overwrite | mode_append | mode_input | mode_fd | mode_noclob

record redirection_spec_t =
  spec_fd :: int
  spec_mode :: redirection_mode_t
  spec_target :: wcstring

text \<open>
  \<open>redirection_spec_t::get_target_as_fd\<close>. \<open>fish_wcstoi\<close> (from \<open>wutil.h\<close>) is not among
  the sources and is a parameter: it maps the string and the incoming \<open>errno\<close> to its
  result and the \<open>errno\<close> it leaves. The function clears \<open>errno\<close> before the call.
\<close>

definition get_target_as_fd ::
    "(wcstring \<Rightarrow> int \<Rightarrow> int \<times> int) \<Rightarrow> redirection_spec_t \<Rightarrow> int option" where
  "get_target_as_fd fish_wcstoi spec =
     (let (result, errno) = fish_wcstoi (spec_target spec) 0
      in if errno \<noteq> 0 \<or> result < 0 then None else Some result)"

record dup2_action_t =
  act_src :: int
  act_target :: int

record dup2_list_t =
  actions :: "dup2_action_t list"

text \<open>
  The loop of \<open>dup2_list_t::fd_for_target_fd\<close> over the actions in the order it visits
  them; \<open>break\<close> ends it with \<open>-1\<close>.
\<close>

fun fd_walk :: "dup2_action_t list \<Rightarrow> int \<Rightarrow> int" where
  "fd_walk [] cursor = cursor"
| "fd_walk (a # as) cursor =
     (if act_target a = cursor then fd_walk as (act_src a)
      else if act_src a = cursor \<and> act_target a < 0 then - 1
      else fd_walk as cursor)"

text \<open>\<open>dup2_list_t::fd_for_target_fd\<close>: the walk goes from \<open>rbegin\<close> to \<open>rend\<close>.\<close>

definition fd_for_target_fd :: "dup2_list_t \<Rightarrow> int \<Rightarrow> int" where
  "fd_for_target_fd l target =
     (if target < 0 then target else fd_walk (rev (actions l)) target)"

section \<open>The screen (\<open>screen_data_t\<close>, \<open>screen_t\<close>)\<close>

record cursor_t =
  cursor_x :: int
  cursor_y :: int

record screen_data_t =
  line_datas :: "line_t list"
  cursor :: cursor_t

text \<open>
  \<open>struct stat\<close> snapshots are compared only for equality (device, inode, size, mtime);
  a snapshot is an opaque token.
\<close>

type_synonym stat_t = nat

text \<open>
  The fields of \<open>screen_t\<close> as the header declares them. \<open>soft_wrap_location\<close> is optional,
  as the spec's data model has it (\<open>None\<close>: not set). The outputter \<open>outp_\<close> is the writer
  that \<open>s_write\<close> is given below.
\<close>

record screen_t =
  desired :: screen_data_t
  actual :: screen_data_t
  actual_left_prompt :: wcstring
  last_right_prompt_width :: nat
  actual_width :: int
  soft_wrap_location :: "cursor_t option"
  autosuggestion_is_truncated :: bool
  need_clear_lines :: bool
  need_clear_screen :: bool
  actual_lines_before_reset :: nat
  prev_buff_1 :: stat_t
  prev_buff_2 :: stat_t
  post_buff_1 :: stat_t
  post_buff_2 :: stat_t

datatype screen_reset_mode_t =
    screen_reset_current_line_contents
  | screen_reset_current_line_and_prompt
  | screen_reset_abandon_line
  | screen_reset_abandon_line_and_clear_to_end_of_screen

text \<open>
  Modelled from the spec: \<open>s_reset\<close> is only declared in the header. Section 4.6: "Each
  mode clears \<open>actual\<close>, sets \<open>need_clear_lines\<close> and optionally \<open>need_clear_screen\<close>, and
  remembers \<open>actual_lines_before_reset\<close>"; the table gives, per mode, whether the prompt
  is repainted next (every mode but \<open>current_line_contents\<close>: the last-drawn prompt is
  forgotten), whether the rest of the screen is cleared (the last mode only:
  \<open>need_clear_screen\<close>) and whether the reset moves to the next line (the two
  \<open>abandon_line\<close> modes: the tracked cursor goes to the start of the line below). The
  bytes a reset sends are not modelled.
\<close>

definition moves_to_next_line :: "screen_reset_mode_t \<Rightarrow> bool" where
  "moves_to_next_line reset_mode \<longleftrightarrow>
     reset_mode = screen_reset_abandon_line \<or>
     reset_mode = screen_reset_abandon_line_and_clear_to_end_of_screen"

definition s_reset :: "screen_reset_mode_t \<Rightarrow> screen_t \<Rightarrow> screen_t" where
  "s_reset reset_mode s =
     s\<lparr>actual_lines_before_reset := length (line_datas (actual s)),
       actual :=
         \<lparr>line_datas = [],
          cursor = (if moves_to_next_line reset_mode
                    then \<lparr>cursor_x = 0, cursor_y = cursor_y (cursor (actual s)) + 1\<rparr>
                    else cursor (actual s))\<rparr>,
       actual_left_prompt :=
         (if reset_mode = screen_reset_current_line_contents then actual_left_prompt s else []),
       need_clear_lines := True,
       need_clear_screen :=
         (need_clear_screen s \<or>
          reset_mode = screen_reset_abandon_line_and_clear_to_end_of_screen)\<rparr>"

section \<open>Rendering (\<open>s_write\<close>)\<close>

text \<open>
  Modelled from the spec: \<open>s_write\<close> is only declared in the header; the layout pass, the
  diff-and-emit pass and the writer are not among the sources. What follows is the
  spec's sections 4.4 to 4.7 and 7.

  The collaborators are parameters. The terminal: its width \<open>W\<close>, the capability flags,
  and the \<open>stat\<close> of stdout and stderr taken before writing. The writer (section 6: a
  "byte-appending sink with an explicit \<open>flush()\<close>" whose errors are propagated): two
  functions on the output buffer that may fail. The layout pass (section 4.4): a function
  from the inputs and the width to the desired grid, the truncation flag and the width
  of the right prompt; its failure mode (a prompt-only grid) is one of its results.
\<close>

record term_env =
  term_width :: int
  auto_right_margin :: bool
  eat_newline_glitch :: bool
  has_clr_eos :: bool
  stat_1 :: stat_t
  stat_2 :: stat_t

datatype term_cmd =
    Move_To int int
  | Clr_Eol
  | Clr_Eos
  | Set_Attr highlight_spec_t
  | Reset_Attr
  | Put_Char wchar_t

datatype render_error = Writer_Failure

type_synonym outbuf = "term_cmd list"

record writer_t =
  wr_append :: "term_cmd \<Rightarrow> outbuf \<Rightarrow> render_error + outbuf"
  wr_flush :: "outbuf \<Rightarrow> render_error + outbuf"

record write_input =
  left_prompt :: wcstring
  right_prompt :: wcstring
  commandline :: wcstring
  explicit_len :: nat
  colors_in :: "highlight_spec_t list"
  indent :: "int list"
  cursor_pos :: nat
  pager_data :: screen_data_t
  cursor_is_within_pager :: bool

record layout_result =
  lr_desired :: screen_data_t
  lr_truncated :: bool
  lr_right_prompt_width :: nat

type_synonym layout_pass_t = "write_input \<Rightarrow> int \<Rightarrow> layout_result"

text \<open>A render that aborts returns the error and the screen as the abort left it.\<close>

type_synonym 'a render = "(render_error \<times> screen_t) + 'a"

text \<open>Sending commands to the writer, in order; the first failure ends it.\<close>

fun emit :: "writer_t \<Rightarrow> term_cmd list \<Rightarrow> outbuf \<Rightarrow> render_error + outbuf" where
  "emit wr [] w = Inr w"
| "emit wr (cmd # cmds) w =
     (case wr_append wr cmd w of Inl e \<Rightarrow> Inl e | Inr w' \<Rightarrow> emit wr cmds w')"

definition highlight_default :: highlight_spec_t where
  "highlight_default = 0"

type_synonym cell = "wchar_t \<times> highlight_spec_t"

definition cells :: "line_t \<Rightarrow> cell list" where
  "cells l = zip (text_l l) (colors l)"

text \<open>Step 3, \<open>skip\<close>: the length of the matching prefix of two rows.\<close>

fun matching_prefix :: "cell list \<Rightarrow> cell list \<Rightarrow> nat" where
  "matching_prefix (a # as) (b # bs) = (if a = b then Suc (matching_prefix as bs) else 0)"
| "matching_prefix as bs = 0"

text \<open>
  Writing cells: an attribute-set sequence goes out only before a cell whose style is
  not the last one emitted. The result is the commands and the last style emitted.
\<close>

fun write_cells :: "highlight_spec_t \<Rightarrow> cell list \<Rightarrow> term_cmd list \<times> highlight_spec_t" where
  "write_cells style [] = ([], style)"
| "write_cells style ((ch, co) # cs) =
     (let (rest, last_style) = write_cells co cs
      in ((if co \<noteq> style then [Set_Attr co] else []) @ Put_Char ch # rest, last_style))"

text \<open>
  Step 2, "treat \<open>actual\<close> as unknown beyond column 0 of each line": the diff sees only
  the first cell of each actual row.
\<close>

definition forget_line :: "line_t \<Rightarrow> line_t" where
  "forget_line l = l\<lparr>text_l := take 1 (text_l l), colors := take 1 (colors l)\<rparr>"

text \<open>
  Step 3 for one row. \<open>known\<close> is what the diff takes the actual rows to be and \<open>clr\<close> is
  \<open>need_clear_lines\<close>. The result is the state after the row and whether the loop breaks.
\<close>

definition diff_row ::
    "writer_t \<Rightarrow> term_env \<Rightarrow> line_t list \<Rightarrow> bool \<Rightarrow> nat \<Rightarrow>
     screen_t \<times> outbuf \<times> highlight_spec_t \<Rightarrow>
     ((screen_t \<times> outbuf \<times> highlight_spec_t) \<times> bool) render" where
  "diff_row wr env known clr row st =
     (case st of (s, w, style) \<Rightarrow>
        let dl = line_datas (desired s) in
        if row \<ge> length dl
        then
          (let first_such = (row = length dl);
               cmds = [Move_To 0 (int row), Clr_Eol] @
                      (if has_clr_eos env \<and> first_such then [Clr_Eos] else [])
           in case emit wr cmds w of
                Inl e \<Rightarrow> Inl (e, s)
              | Inr w' \<Rightarrow> Inr ((s, w', style), has_clr_eos env \<and> first_such))
        else
          (let d = cells (dl ! row);
               a = (if row < length known then cells (known ! row) else []);
               j = matching_prefix d a;
               must_write = (j < length d \<or> length a > length d);
               (written, style') = write_cells style (drop j d);
               cmds = (if must_write
                       then Move_To (int j) (int row) # written @
                            (if length a > length d \<or> clr then [Clr_Eol] else [])
                       else []);
               wrap = (is_soft_wrapped (dl ! row) \<and> auto_right_margin env \<and>
                       eat_newline_glitch env);
               cmds' = cmds @ (if wrap then [] else [Move_To 0 (int row + 1)])
           in case emit wr cmds' w of
                Inl e \<Rightarrow> Inl (e, s)
              | Inr w' \<Rightarrow>
                  Inr (((if wrap
                         then s\<lparr>soft_wrap_location :=
                                  Some \<lparr>cursor_x = term_width env, cursor_y = int row\<rparr>\<rparr>
                         else s),
                        w', (if must_write then style' else style)), False)))"

fun diff_rows ::
    "writer_t \<Rightarrow> term_env \<Rightarrow> line_t list \<Rightarrow> bool \<Rightarrow> nat list \<Rightarrow>
     screen_t \<times> outbuf \<times> highlight_spec_t \<Rightarrow>
     (screen_t \<times> outbuf \<times> highlight_spec_t) render" where
  "diff_rows wr env known clr [] st = Inr st"
| "diff_rows wr env known clr (row # rows) st =
     (case diff_row wr env known clr row st of
        Inl e \<Rightarrow> Inl e
      | Inr (st', brk) \<Rightarrow> if brk then Inr st' else diff_rows wr env known clr rows st')"

text \<open>
  Step 1: "If \<open>need_clear_screen\<close>, move to \<open>(0, first_actual_line)\<close> and emit
  clear-to-end-of-screen; set \<open>actual\<close> to empty and \<open>need_clear_screen = false\<close>".
\<close>

definition clear_screen_step :: "writer_t \<Rightarrow> screen_t \<Rightarrow> outbuf \<Rightarrow> (screen_t \<times> outbuf) render" where
  "clear_screen_step wr s w =
     (if need_clear_screen s
      then (case emit wr [Move_To 0 0, Clr_Eos] w of
              Inl e \<Rightarrow> Inl (e, s)
            | Inr w' \<Rightarrow>
                Inr (s\<lparr>actual := (actual s)\<lparr>line_datas := []\<rparr>, need_clear_screen := False\<rparr>, w'))
      else Inr (s, w))"

text \<open>
  Step 4: the move to \<open>desired.cursor\<close>, skipped when that is the soft-wrap location, and
  the attribute reset when the last style is not the default.
\<close>

definition final_cmds :: "screen_t \<Rightarrow> highlight_spec_t \<Rightarrow> term_cmd list" where
  "final_cmds s style =
     (if soft_wrap_location s = Some (cursor (desired s)) then []
      else [Move_To (cursor_x (cursor (desired s))) (cursor_y (cursor (desired s)))]) @
     (if style \<noteq> highlight_default then [Reset_Attr] else [])"

text \<open>
  Diff-and-emit (section 4.5), steps 1 to 5. Step 5 is in the order the spec lists it:
  "Assign \<open>actual := desired\<close>, \<open>actual.cursor := desired.cursor\<close>, clear the dirty flags,
  flush the writer". With the assignment the render records the width it wrote at (the
  header: \<open>actual_width\<close> is "the actual width of the screen at the time of the last
  screen write").
\<close>

definition s_update :: "writer_t \<Rightarrow> term_env \<Rightarrow> screen_t \<Rightarrow> outbuf \<Rightarrow> (screen_t \<times> outbuf) render" where
  "s_update wr env s w =
     (case clear_screen_step wr s w of
        Inl e \<Rightarrow> Inl e
      | Inr (s1, w1) \<Rightarrow>
          let changed = (actual_width s1 \<noteq> term_width env);
              s2 = (if changed then s1\<lparr>need_clear_lines := True\<rparr> else s1);
              known = (if changed then map forget_line (line_datas (actual s2))
                       else line_datas (actual s2));
              n = max (length (line_datas (desired s2))) (length (line_datas (actual s2)))
          in case diff_rows wr env known (need_clear_lines s2) [0..<n]
                    (s2, w1, highlight_default) of
               Inl e \<Rightarrow> Inl e
             | Inr (s3, w3, style) \<Rightarrow>
                 (case emit wr (final_cmds s3 style) w3 of
                    Inl e \<Rightarrow> Inl (e, s3)
                  | Inr w4 \<Rightarrow>
                      (let s4 = s3\<lparr>actual := desired s3,
                                    need_clear_lines := False,
                                    need_clear_screen := False,
                                    actual_width := term_width env\<rparr>
                       in case wr_flush wr w4 of
                            Inl e \<Rightarrow> Inl (e, s4)
                          | Inr w5 \<Rightarrow> Inr (s4, w5))))"

text \<open>
  \<open>s_write\<close>: foreign-output detection (section 4.7: when the stored post-write snapshots
  differ from the \<open>stat\<close> taken before writing, "force \<open>reset(abandon_line)\<close> before
  proceeding"), the layout pass, which assigns \<open>desired\<close>, and diff-and-emit. A completed
  render remembers the left prompt and the width of the right prompt it drew.
\<close>

definition s_write ::
    "layout_pass_t \<Rightarrow> writer_t \<Rightarrow> term_env \<Rightarrow> write_input \<Rightarrow> screen_t \<Rightarrow> outbuf \<Rightarrow>
     (screen_t \<times> outbuf) render" where
  "s_write layout_pass wr env inp s w =
     (let foreign = (post_buff_1 s \<noteq> stat_1 env \<or> post_buff_2 s \<noteq> stat_2 env);
          s0 = (if foreign then s_reset screen_reset_abandon_line s else s);
          s1 = s0\<lparr>prev_buff_1 := stat_1 env, prev_buff_2 := stat_2 env\<rparr>;
          lr = layout_pass inp (term_width env);
          s2 = s1\<lparr>desired := lr_desired lr, autosuggestion_is_truncated := lr_truncated lr\<rparr>
      in case s_update wr env s2 w of
           Inl e \<Rightarrow> Inl e
         | Inr (s3, w3) \<Rightarrow>
             Inr (s3\<lparr>actual_left_prompt := left_prompt inp,
                     last_right_prompt_width := lr_right_prompt_width lr\<rparr>, w3))"

text \<open>\<open>s_save_status\<close>: the snapshots taken after writing.\<close>

definition s_save_status :: "term_env \<Rightarrow> screen_t \<Rightarrow> screen_t" where
  "s_save_status env s = s\<lparr>post_buff_1 := stat_1 env, post_buff_2 := stat_2 env\<rparr>"

section \<open>A concrete render\<close>

text \<open>
  The spec's first end-to-end scenario ("Hello", width 20): left prompt \<open>$ \<close>, command line
  \<open>echo hi\<close>, cursor at its end; the expected screen is the one line \<open>$ echo hi\<close> of nine
  cells with the cursor at \<open>(9, 0)\<close>. The layout pass is a parameter of \<open>s_write\<close>, and
  \<open>hello_layout\<close> is the one that gives this grid. \<open>buffering_writer\<close> never fails.
  \<open>vt_env st\<close> is a terminal of width 20 with every capability, whose stdout has the
  snapshot \<open>st\<close>.
\<close>

definition hello_line :: line_t where
  "hello_line =
     \<lparr>text_l = [36, 32, 101, 99, 104, 111, 32, 104, 105],
      colors = [0, 0, 0, 0, 0, 0, 0, 0, 0], is_soft_wrapped = False, indentation = 0\<rparr>"

definition hello_input :: write_input where
  "hello_input =
     \<lparr>left_prompt = [36, 32], right_prompt = [],
      commandline = [101, 99, 104, 111, 32, 104, 105], explicit_len = 7,
      colors_in = [0, 0, 0, 0, 0, 0, 0], indent = [0, 0, 0, 0, 0, 0, 0], cursor_pos = 7,
      pager_data = \<lparr>line_datas = [], cursor = \<lparr>cursor_x = 0, cursor_y = 0\<rparr>\<rparr>,
      cursor_is_within_pager = False\<rparr>"

definition hello_layout :: layout_pass_t where
  "hello_layout inp W =
     \<lparr>lr_desired = \<lparr>line_datas = [hello_line], cursor = \<lparr>cursor_x = 9, cursor_y = 0\<rparr>\<rparr>,
      lr_truncated = False, lr_right_prompt_width = 0\<rparr>"

definition buffering_writer :: writer_t where
  "buffering_writer = \<lparr>wr_append = (\<lambda>cmd w. Inr (w @ [cmd])), wr_flush = (\<lambda>w. Inr w)\<rparr>"

definition vt_env :: "stat_t \<Rightarrow> term_env" where
  "vt_env st =
     \<lparr>term_width = 20, auto_right_margin = True, eat_newline_glitch = True,
      has_clr_eos = True, stat_1 = st, stat_2 = 0\<rparr>"

text \<open>
  A screen before its first render: both grids empty, the width unknown (the sentinel
  \<open>-1\<close> of the spec's data model), no flag set.
\<close>

definition screen_t_new :: screen_t where
  "screen_t_new =
     \<lparr>desired = \<lparr>line_datas = [], cursor = \<lparr>cursor_x = 0, cursor_y = 0\<rparr>\<rparr>,
      actual = \<lparr>line_datas = [], cursor = \<lparr>cursor_x = 0, cursor_y = 0\<rparr>\<rparr>,
      actual_left_prompt = [], last_right_prompt_width = 0, actual_width = - 1,
      soft_wrap_location = None, autosuggestion_is_truncated = False,
      need_clear_lines = False, need_clear_screen = False, actual_lines_before_reset = 0,
      prev_buff_1 = 0, prev_buff_2 = 0, post_buff_1 = 0, post_buff_2 = 0\<rparr>"

text \<open>The screen and the output of the completed "Hello" render.\<close>

definition hello_screen :: screen_t where
  "hello_screen =
     \<lparr>desired = \<lparr>line_datas = [hello_line], cursor = \<lparr>cursor_x = 9, cursor_y = 0\<rparr>\<rparr>,
      actual = \<lparr>line_datas = [hello_line], cursor = \<lparr>cursor_x = 9, cursor_y = 0\<rparr>\<rparr>,
      actual_left_prompt = [36, 32], last_right_prompt_width = 0, actual_width = 20,
      soft_wrap_location = None, autosuggestion_is_truncated = False,
      need_clear_lines = False, need_clear_screen = False, actual_lines_before_reset = 0,
      prev_buff_1 = 0, prev_buff_2 = 0, post_buff_1 = 0, post_buff_2 = 0\<rparr>"

definition hello_output :: outbuf where
  "hello_output =
     [Move_To 0 0, Put_Char 36, Put_Char 32, Put_Char 101, Put_Char 99, Put_Char 104,
      Put_Char 111, Put_Char 32, Put_Char 104, Put_Char 105, Clr_Eol, Move_To 0 1,
      Move_To 9 0]"

section \<open>Binary search\<close>

lemma upper_bound_from_0 [simp]: "upper_bound_from xs v first 0 = first"
  by (subst upper_bound_from.simps) simp

lemma upper_bound_from_left:
  "len \<noteq> 0 \<Longrightarrow> v < xs ! (first + len div 2) \<Longrightarrow>
   upper_bound_from xs v first len = upper_bound_from xs v first (len div 2)"
  by (subst upper_bound_from.simps) (simp add: Let_def)

lemma upper_bound_from_right:
  "len \<noteq> 0 \<Longrightarrow> \<not> v < xs ! (first + len div 2) \<Longrightarrow>
   upper_bound_from xs v first len =
   upper_bound_from xs v (first + len div 2 + 1) (len - len div 2 - 1)"
  by (subst upper_bound_from.simps) (simp add: Let_def)

lemma upper_bound_from_range:
  "first \<le> upper_bound_from xs v first len \<and> upper_bound_from xs v first len \<le> first + len"
proof (induction xs v first len rule: upper_bound_from.induct)
  case (1 xs v first len)
  show ?case
  proof (cases "len = 0")
    case True
    then show ?thesis by simp
  next
    case False
    then have half: "len div 2 < len" by simp
    show ?thesis
    proof (cases "v < xs ! (first + len div 2)")
      case True
      from 1(1) [OF False refl refl True] half show ?thesis
        unfolding upper_bound_from_left [OF False True] by linarith
    next
      case nlt: False
      from 1(2) [OF False refl refl nlt] half show ?thesis
        unfolding upper_bound_from_right [OF False nlt] by linarith
    qed
  qed
qed

lemma upper_bound_from_sorted:
  "sorted xs \<Longrightarrow> first + len \<le> length xs \<Longrightarrow>
   (\<forall>i. first \<le> i \<and> i < upper_bound_from xs v first len \<longrightarrow> xs ! i \<le> v) \<and>
   (\<forall>i. upper_bound_from xs v first len \<le> i \<and> i < first + len \<longrightarrow> v < xs ! i)"
proof (induction xs v first len rule: upper_bound_from.induct)
  case (1 xs v first len)
  show ?case
  proof (cases "len = 0")
    case True
    then show ?thesis by auto
  next
    case False
    then have half: "len div 2 < len" by simp
    let ?m = "first + len div 2"
    have m: "?m < length xs" using half 1(4) by linarith
    show ?thesis
    proof (cases "v < xs ! ?m")
      case True
      have le: "first + len div 2 \<le> length xs" using m by simp
      note IH = 1(1) [OF False refl refl True 1(3) le]
      have "v < xs ! i" if "?m \<le> i" "i < first + len" for i
      proof -
        have "xs ! ?m \<le> xs ! i" using that 1(3,4) by (intro sorted_nth_mono) auto
        with True show ?thesis by simp
      qed
      with IH show ?thesis unfolding upper_bound_from_left [OF False True]
        by (metis not_le_imp_less)
    next
      case nlt: False
      have le: "?m + 1 + (len - len div 2 - 1) \<le> length xs" using half 1(4) by linarith
      have top: "?m + 1 + (len - len div 2 - 1) = first + len" using half by linarith
      note IH = 1(2) [OF False refl refl nlt 1(3) le]
      have "xs ! i \<le> v" if "first \<le> i" "i \<le> ?m" for i
      proof -
        have "xs ! i \<le> xs ! ?m" using that 1(3) m by (intro sorted_nth_mono) auto
        with nlt show ?thesis by simp
      qed
      with IH show ?thesis unfolding upper_bound_from_right [OF False nlt] top
        by (metis Suc_eq_plus1 not_less_eq_eq not_le_imp_less)
    qed
  qed
qed

lemma upper_bound_le_length: "upper_bound xs v \<le> length xs"
  using upper_bound_from_range [of 0 xs v "length xs"] by (simp add: upper_bound_def)

lemma upper_bound_sorted_below:
  "sorted xs \<Longrightarrow> i < upper_bound xs v \<Longrightarrow> xs ! i \<le> v"
  using upper_bound_from_sorted [of xs 0 "length xs" v] by (simp add: upper_bound_def)

lemma upper_bound_sorted_above:
  "sorted xs \<Longrightarrow> upper_bound xs v \<le> i \<Longrightarrow> i < length xs \<Longrightarrow> v < xs ! i"
  using upper_bound_from_sorted [of xs 0 "length xs" v] by (simp add: upper_bound_def)

lemma upper_bound_take:
  "sorted xs \<Longrightarrow> x \<in> set (take (upper_bound xs v) xs) \<Longrightarrow> x \<le> v"
  by (auto simp: in_set_conv_nth upper_bound_sorted_below)

lemma upper_bound_drop:
  "sorted xs \<Longrightarrow> x \<in> set (drop (upper_bound xs v) xs) \<Longrightarrow> v < x"
  by (auto simp: in_set_conv_nth upper_bound_sorted_above)

lemma upper_bound_mem:
  assumes "sorted xs"
  shows "v \<in> set xs \<longleftrightarrow> upper_bound xs v \<noteq> 0 \<and> xs ! (upper_bound xs v - 1) = v"
proof
  assume "v \<in> set xs"
  then obtain i where i: "i < length xs" "xs ! i = v" by (auto simp: in_set_conv_nth)
  have lt: "i < upper_bound xs v"
  proof (rule ccontr)
    assume "\<not> i < upper_bound xs v"
    then have "v < xs ! i" using upper_bound_sorted_above [OF assms _ i(1)] by simp
    with i(2) show False by simp
  qed
  let ?p = "upper_bound xs v - 1"
  have p: "?p < upper_bound xs v" "?p < length xs" "i \<le> ?p"
    using lt upper_bound_le_length [of xs v] by linarith+
  have "xs ! ?p \<le> v" using upper_bound_sorted_below [OF assms p(1)] .
  moreover have "xs ! i \<le> xs ! ?p" using assms p by (intro sorted_nth_mono) auto
  ultimately show "upper_bound xs v \<noteq> 0 \<and> xs ! ?p = v" using i(2) lt by auto
next
  assume a: "upper_bound xs v \<noteq> 0 \<and> xs ! (upper_bound xs v - 1) = v"
  then have "upper_bound xs v - 1 < length xs" using upper_bound_le_length [of xs v] by linarith
  then have "xs ! (upper_bound xs v - 1) \<in> set xs" by (rule nth_mem)
  with a show "v \<in> set xs" by simp
qed

section \<open>Prefixes and the lexicographic order\<close>

lemma prefix_lex_le:
  fixes c s :: "'a::linorder list"
  shows "prefix c s \<Longrightarrow> c \<le> s"
proof (induction c arbitrary: s)
  case Nil
  then show ?case by simp
next
  case (Cons x c)
  from Cons.prems obtain t where s: "s = x # (c @ t)" by (auto simp: prefix_def)
  have "prefix c (c @ t)" by simp
  with Cons.IH [of "c @ t"] s show ?case by simp
qed

lemma lex_between_prefix:
  fixes c p s :: "'a::linorder list"
  shows "c \<le> p \<Longrightarrow> p \<le> s \<Longrightarrow> prefix c s \<Longrightarrow> prefix c p"
proof (induction c arbitrary: p s)
  case Nil
  then show ?case by simp
next
  case (Cons x c)
  from Cons.prems(3) obtain t where s: "s = x # (c @ t)" by (auto simp: prefix_def)
  from Cons.prems(1) obtain y p' where p: "p = y # p'" by (cases p) auto
  from Cons.prems(1) p have 1: "x < y \<or> (x = y \<and> c \<le> p')" by auto
  from Cons.prems(2) p s have 2: "y < x \<or> (y = x \<and> p' \<le> c @ t)" by auto
  from 1 2 have "x = y" "c \<le> p'" "p' \<le> c @ t" by auto
  with Cons.IH [of p' "c @ t"] p show ?case by simp
qed

section \<open>C strings\<close>

lemma c_str_nul_free: "0 \<notin> set e \<Longrightarrow> c_str e = e"
  by (auto simp: c_str_def)

lemma c_str_prefix: "prefix (c_str s) s"
  unfolding c_str_def by (rule takeWhile_is_prefix)

lemma prefix_c_str:
  assumes "0 \<notin> set t" and "prefix t s"
  shows "prefix t (c_str s)"
proof -
  from assms(2) obtain r where r: "s = t @ r" by (auto simp: prefix_def)
  have "x \<noteq> 0" if "x \<in> set t" for x using that assms(1) by auto
  then have "takeWhile (\<lambda>c. c \<noteq> 0) (t @ r) = t @ takeWhile (\<lambda>c. c \<noteq> 0) r"
    by (rule takeWhile_append2)
  then show ?thesis by (simp add: c_str_def r)
qed

lemma prefix_of_c_str: "prefix t (c_str s) \<Longrightarrow> prefix t s"
  using c_str_prefix [of s] by (auto simp: prefix_def)

lemma string_prefixes_string_nul_free:
  "0 \<notin> set e \<Longrightarrow> string_prefixes_string e s = prefix e (c_str s)"
  by (simp add: string_prefixes_string_def c_str_nul_free)

section \<open>The predecessor of the upper bound\<close>

lemma find_escape_code_candidate:
  assumes srt: "sorted xs" and pf: "prefix_free xs" and mem: "e \<in> set xs" and pre: "prefix e s"
  shows "upper_bound xs s \<noteq> 0 \<and> xs ! (upper_bound xs s - 1) = e"
proof -
  from mem obtain i where i: "i < length xs" "xs ! i = e" by (auto simp: in_set_conv_nth)
  have es: "e \<le> s" using pre by (rule prefix_lex_le)
  have lt: "i < upper_bound xs s"
  proof (rule ccontr)
    assume "\<not> i < upper_bound xs s"
    then have "s < xs ! i" using upper_bound_sorted_above [OF srt _ i(1)] by simp
    with i(2) es show False by simp
  qed
  let ?p = "upper_bound xs s - 1"
  have p: "?p < upper_bound xs s" "?p < length xs" "i \<le> ?p"
    using lt upper_bound_le_length [of xs s] by linarith+
  have ps: "xs ! ?p \<le> s" using upper_bound_sorted_below [OF srt p(1)] .
  have "xs ! i \<le> xs ! ?p" using srt p by (intro sorted_nth_mono) auto
  then have ep: "e \<le> xs ! ?p" using i(2) by simp
  have pre': "prefix e (xs ! ?p)" using ep ps pre by (rule lex_between_prefix)
  have mem': "xs ! ?p \<in> set xs" using p(2) by (rule nth_mem)
  have "e \<noteq> xs ! ?p \<longrightarrow> \<not> prefix e (xs ! ?p)"
    using pf [unfolded prefix_free_def, rule_format, OF mem mem'] by (rule impI)
  with pre' have "xs ! ?p = e" by auto
  moreover have "upper_bound xs s \<noteq> 0" using lt by linarith
  ultimately show ?thesis by (rule conjI [rotated])
qed

section \<open>Claims about the escape-code cache\<close>

text \<open>
  Claim C1, as amended. On a cache that is sorted and prefix-free and none of whose
  entries holds a NUL, \<open>find_escape_code s\<close> is the length of the cache entry that is a
  prefix of the string \<open>s\<close> (the C string the argument denotes), there is only one such
  entry, and the result is 0 when no entry is a prefix of \<open>s\<close>.
\<close>

theorem find_escape_code_correct:
  assumes "sorted (esc_cache c)" and "prefix_free (esc_cache c)" and "nul_free (esc_cache c)"
  shows "(\<forall>e \<in> set (esc_cache c). prefix e (c_str s) \<longrightarrow>
            find_escape_code c s = length e \<and>
            (\<forall>d \<in> set (esc_cache c). prefix d (c_str s) \<longrightarrow> d = e)) \<and>
         ((\<forall>e \<in> set (esc_cache c). \<not> prefix e (c_str s)) \<longrightarrow> find_escape_code c s = 0)"
proof (intro conjI ballI impI)
  fix e assume e: "e \<in> set (esc_cache c)" "prefix e (c_str s)"
  have "upper_bound (esc_cache c) (c_str s) \<noteq> 0"
    and "esc_cache c ! (upper_bound (esc_cache c) (c_str s) - 1) = e"
    using find_escape_code_candidate [OF assms(1,2) e] by (rule conjunct1, rule conjunct2)
  moreover have "string_prefixes_string e s"
    using assms(3) e by (simp add: nul_free_def string_prefixes_string_nul_free)
  ultimately show "find_escape_code c s = length e"
    by (simp add: find_escape_code_def Let_def)
next
  fix e d assume e: "e \<in> set (esc_cache c)" "prefix e (c_str s)"
    and d: "d \<in> set (esc_cache c)" "prefix d (c_str s)"
  have a: "esc_cache c ! (upper_bound (esc_cache c) (c_str s) - 1) = e"
    using find_escape_code_candidate [OF assms(1,2) e] by (rule conjunct2)
  have b: "esc_cache c ! (upper_bound (esc_cache c) (c_str s) - 1) = d"
    using find_escape_code_candidate [OF assms(1,2) d] by (rule conjunct2)
  from b [symmetric] a show "d = e" by (rule trans)
next
  assume none: "\<forall>e \<in> set (esc_cache c). \<not> prefix e (c_str s)"
  show "find_escape_code c s = 0"
  proof (cases "upper_bound (esc_cache c) (c_str s) = 0")
    case True
    then show ?thesis by (simp add: find_escape_code_def)
  next
    case False
    let ?cand = "esc_cache c ! (upper_bound (esc_cache c) (c_str s) - 1)"
    have "upper_bound (esc_cache c) (c_str s) - 1 < length (esc_cache c)"
      using False upper_bound_le_length [of "esc_cache c" "c_str s"] by linarith
    then have mem: "?cand \<in> set (esc_cache c)" by (rule nth_mem)
    then have "string_prefixes_string ?cand s = prefix ?cand (c_str s)"
      using assms(3) by (simp add: nul_free_def string_prefixes_string_nul_free)
    with none mem have "\<not> string_prefixes_string ?cand s" by simp
    then show ?thesis by (simp add: find_escape_code_def Let_def)
  qed
qed

theorem find_escape_code_correct_witness:
  "sorted (esc_cache (add_escape_codes [[27, 91, 51, 49, 109], [27, 40, 66], [27, 93, 48, 7]])) \<and>
   prefix_free (esc_cache (add_escape_codes [[27, 91, 51, 49, 109], [27, 40, 66], [27, 93, 48, 7]])) \<and>
   nul_free (esc_cache (add_escape_codes [[27, 91, 51, 49, 109], [27, 40, 66], [27, 93, 48, 7]])) \<and>
   [27, 91, 51, 49, 109] \<in>
     set (esc_cache (add_escape_codes [[27, 91, 51, 49, 109], [27, 40, 66], [27, 93, 48, 7]])) \<and>
   c_str [27, 91, 51, 49, 109, 104, 105, 0, 33] = [27, 91, 51, 49, 109, 104, 105] \<and>
   prefix [27, 91, 51, 49, 109] [27, 91, 51, 49, 109, 104, 105 :: int] \<and>
   find_escape_code (add_escape_codes [[27, 91, 51, 49, 109], [27, 40, 66], [27, 93, 48, 7]])
     [27, 91, 51, 49, 109, 104, 105, 0, 33] = 5 \<and>
   find_escape_code (add_escape_codes [[27, 91, 51, 49, 109], [27, 40, 66], [27, 93, 48, 7]])
     [104, 105] = 0"
proof -
  let ?c = "add_escape_codes [[27, 91, 51, 49, 109], [27, 40, 66], [27, 93, 48, 7]]"
  have e: "esc_cache ?c = [[27, 40, 66], [27, 91, 51, 49, 109], [27, 93, 48, 7]]"
    by code_simp
  have s: "sorted (esc_cache ?c)" unfolding e by simp
  have p: "prefix_free (esc_cache ?c)" unfolding e by (simp add: prefix_free_def)
  have z: "nul_free (esc_cache ?c)" unfolding e by (simp add: nul_free_def)
  have m: "[27, 91, 51, 49, 109] \<in> set (esc_cache ?c)" unfolding e by simp
  have k: "c_str [27, 91, 51, 49, 109, 104, 105, 0, 33] = [27, 91, 51, 49, 109, 104, 105]"
    by (simp add: c_str_def)
  have k2: "c_str [104, 105] = [104, 105]" by (simp add: c_str_def)
  have q: "prefix [27, 91, 51, 49, 109] [27, 91, 51, 49, 109, 104, 105 :: int]" by simp
  have q': "prefix [27, 91, 51, 49, 109] (c_str [27, 91, 51, 49, 109, 104, 105, 0, 33])"
    unfolding k by simp
  have n: "\<forall>e \<in> set (esc_cache ?c). \<not> prefix e (c_str [104, 105])" unfolding e k2 by simp
  have "find_escape_code ?c [27, 91, 51, 49, 109, 104, 105, 0, 33] =
      length [27, 91, 51, 49, 109 :: int]"
    using find_escape_code_correct [OF s p z, of "[27, 91, 51, 49, 109, 104, 105, 0, 33]"] m q'
    by blast
  then have a: "find_escape_code ?c [27, 91, 51, 49, 109, 104, 105, 0, 33] = 5" by simp
  have b: "find_escape_code ?c [104, 105] = 0"
    using find_escape_code_correct [OF s p z, of "[104, 105]"] n by blast
  from s p z m k q a b show ?thesis by (intro conjI)
qed

text \<open>
  The claim as stated fails on a cache entry with a NUL in it: the cache that holds only
  \<open>a NUL b\<close> is sorted and prefix-free, and its entry is not a prefix of \<open>ax\<close>; but
  \<open>c_str()\<close> of the entry is \<open>a\<close>, which is, and the result is the entry's whole length 3,
  more than the length of \<open>ax\<close>.
\<close>

theorem find_escape_code_embedded_nul:
  "esc_cache (add_escape_codes [[97, 0, 98]]) = [[97, 0, 98]] \<and>
   sorted [[97, 0, 98 :: int]] \<and>
   prefix_free [[97, 0, 98]] \<and>
   \<not> prefix [97, 0, 98] [97, 120 :: int] \<and>
   find_escape_code (add_escape_codes [[97, 0, 98]]) [97, 120] = 3"
proof -
  have e: "esc_cache (add_escape_codes [[97, 0, 98]]) = [[97, 0, 98]]" by code_simp
  have f: "find_escape_code (add_escape_codes [[97, 0, 98]]) [97, 120] = 3" by code_simp
  from e f show ?thesis by (simp add: prefix_free_def)
qed

lemma esc_cache_add_escape_code:
  assumes "sorted (esc_cache c)"
  shows "esc_cache (add_escape_code s c) =
         (if s \<in> set (esc_cache c) then esc_cache c
          else take (upper_bound (esc_cache c) s) (esc_cache c) @
               s # drop (upper_bound (esc_cache c) s) (esc_cache c))"
  using upper_bound_mem [OF assms, of s] by (auto simp: add_escape_code_def Let_def)

lemma add_escape_code_present:
  assumes "sorted (esc_cache c)" and "s \<in> set (esc_cache c)"
  shows "add_escape_code s c = c"
  using upper_bound_mem [OF assms(1), of s] assms(2) by (auto simp: add_escape_code_def Let_def)

lemma prompt_cache_add_escape_code [simp]:
  "prompt_cache (add_escape_code s c) = prompt_cache c"
  by (simp add: add_escape_code_def Let_def)

lemma sorted_insert_upper_bound:
  assumes "sorted xs"
  shows "sorted (take (upper_bound xs s) xs @ s # drop (upper_bound xs s) xs)"
proof -
  let ?k = "upper_bound xs s"
  have "sorted (take ?k xs @ drop ?k xs)" using assms by simp
  then have 1: "sorted (take ?k xs)" and 2: "sorted (drop ?k xs)"
    by (simp_all only: sorted_append)
  have 3: "x \<le> s" if "x \<in> set (take ?k xs)" for x using upper_bound_take [OF assms that] .
  have 4: "s \<le> y" if "y \<in> set (drop ?k xs)" for y
    using upper_bound_drop [OF assms that] by (rule less_imp_le)
  have 5: "x \<le> y" if "x \<in> set (take ?k xs)" "y \<in> set (drop ?k xs)" for x y
    using 3 [OF that(1)] 4 [OF that(2)] by (rule order_trans)
  show ?thesis using 1 2 3 4 5 by (simp add: sorted_append)
qed

lemma distinct_insert_at:
  assumes "distinct xs" and "s \<notin> set xs"
  shows "distinct (take k xs @ s # drop k xs)"
proof -
  have "distinct (take k xs @ drop k xs)" using assms(1) by simp
  then have d: "distinct (take k xs)" "distinct (drop k xs)"
    "set (take k xs) \<inter> set (drop k xs) = {}" by (simp_all only: distinct_append)
  have "s \<notin> set (take k xs)" "s \<notin> set (drop k xs)"
    using assms(2) in_set_takeD in_set_dropD by fast+
  with d show ?thesis by simp
qed

lemma set_insert_at: "set (take k xs @ s # drop k xs) = insert s (set xs)"
proof -
  have "set (take k xs) \<union> set (drop k xs) = set xs"
    using set_append [of "take k xs" "drop k xs"] by simp
  then show ?thesis by auto
qed

lemma add_escape_codes_snoc:
  "add_escape_codes (strs @ [s]) = add_escape_code s (add_escape_codes strs)"
  by (simp add: add_escape_codes_def)

lemma add_escape_codes_invariant:
  "sorted (esc_cache (add_escape_codes strs)) \<and>
   distinct (esc_cache (add_escape_codes strs)) \<and>
   set (esc_cache (add_escape_codes strs)) = set strs"
proof (induction strs rule: rev_induct)
  case Nil
  show ?case by (simp add: add_escape_codes_def layout_cache_new_def)
next
  case (snoc s strs)
  let ?c = "add_escape_codes strs"
  from snoc have srt: "sorted (esc_cache ?c)" and dst: "distinct (esc_cache ?c)"
    and st: "set (esc_cache ?c) = set strs" by simp_all
  show ?case
  proof (cases "s \<in> set (esc_cache ?c)")
    case True
    then have "add_escape_code s ?c = ?c" using srt by (intro add_escape_code_present)
    with srt dst st True show ?thesis by (auto simp: add_escape_codes_snoc)
  next
    case False
    then have eq: "esc_cache (add_escape_code s ?c) =
        take (upper_bound (esc_cache ?c) s) (esc_cache ?c) @
        s # drop (upper_bound (esc_cache ?c) s) (esc_cache ?c)"
      using esc_cache_add_escape_code [OF srt, of s] by simp
    show ?thesis
      unfolding add_escape_codes_snoc eq
      using sorted_insert_upper_bound [OF srt, of s] distinct_insert_at [OF dst False]
        set_insert_at [of "upper_bound (esc_cache ?c) s" "esc_cache ?c" s] st
      by simp
  qed
qed

lemma prefix_free_set: "set xs = set ys \<Longrightarrow> prefix_free xs = prefix_free ys"
  by (simp add: prefix_free_def)

text \<open>
  Claim C2, as amended. After any sequence of \<open>add_escape_code\<close> calls on a new cache the
  cache is sorted, has no duplicates and holds exactly the strings that were added.
  \<open>add_escape_code\<close> compares the new string only for equality with its predecessor, so
  the cache is prefix-free exactly when the added strings are: the comment in
  \<open>find_escape_code\<close> says that this is assumed of the escape codes, not enforced.
\<close>

theorem add_escape_codes_sorted:
  "sorted (esc_cache (add_escape_codes strs)) \<and>
   distinct (esc_cache (add_escape_codes strs)) \<and>
   set (esc_cache (add_escape_codes strs)) = set strs \<and>
   prefix_free (esc_cache (add_escape_codes strs)) = prefix_free strs"
  using add_escape_codes_invariant [of strs]
    prefix_free_set [of "esc_cache (add_escape_codes strs)" strs] by simp

theorem add_escape_codes_sorted_witness:
  "esc_cache (add_escape_codes [[27, 91, 109], [27, 40, 66], [27, 91, 109]]) =
     [[27, 40, 66], [27, 91, 109]] \<and>
   sorted [[27, 40, 66], [27, 91, 109 :: int]] \<and>
   prefix_free [[27, 40, 66], [27, 91, 109]]"
proof -
  have e: "esc_cache (add_escape_codes [[27, 91, 109], [27, 40, 66], [27, 91, 109]]) =
     [[27, 40, 66], [27, 91, 109]]" by code_simp
  have p: "prefix_free [[27, 91, 109], [27, 40, 66], [27, 91, 109]]"
    by (simp add: prefix_free_def)
  show ?thesis
    using add_escape_codes_sorted [of "[[27, 91, 109], [27, 40, 66], [27, 91, 109]]"] p
    unfolding e by simp
qed

text \<open>
  The claim as stated fails: adding \<open>ESC ( B\<close> and then \<open>ESC ( B ESC [ m\<close> leaves a cache
  in which the first entry is a prefix of the second.
\<close>

theorem add_escape_codes_not_prefix_free:
  "\<not> (sorted (esc_cache (add_escape_codes [[27, 40, 66], [27, 40, 66, 27, 91, 109]])) \<and>
      prefix_free (esc_cache (add_escape_codes [[27, 40, 66], [27, 40, 66, 27, 91, 109]])))"
proof -
  have e: "esc_cache (add_escape_codes [[27, 40, 66], [27, 40, 66, 27, 91, 109]]) =
      [[27, 40, 66], [27, 40, 66, 27, 91, 109]]"
    by code_simp
  show ?thesis unfolding e by (simp add: prefix_free_def)
qed

lemma add_escape_code_on_sorted:
  assumes "sorted (esc_cache c)"
  shows "(s \<in> set (esc_cache c) \<longrightarrow> add_escape_code s c = c) \<and>
         (s \<notin> set (esc_cache c) \<longrightarrow>
            esc_cache (add_escape_code s c) =
              take (upper_bound (esc_cache c) s) (esc_cache c) @
              s # drop (upper_bound (esc_cache c) s) (esc_cache c) \<and>
            prompt_cache (add_escape_code s c) = prompt_cache c \<and>
            esc_cache_size (add_escape_code s c) = esc_cache_size c + 1 \<and>
            count_list (esc_cache (add_escape_code s c)) s = 1) \<and>
         add_escape_code s (add_escape_code s c) = add_escape_code s c"
proof (intro conjI impI)
  assume "s \<in> set (esc_cache c)"
  with assms show "add_escape_code s c = c" by (rule add_escape_code_present)
next
  assume a: "s \<notin> set (esc_cache c)"
  then show eq: "esc_cache (add_escape_code s c) =
      take (upper_bound (esc_cache c) s) (esc_cache c) @
      s # drop (upper_bound (esc_cache c) s) (esc_cache c)"
    using esc_cache_add_escape_code [OF assms, of s] by simp
  show "prompt_cache (add_escape_code s c) = prompt_cache c" by simp
  have k: "upper_bound (esc_cache c) s \<le> length (esc_cache c)" by (rule upper_bound_le_length)
  show "esc_cache_size (add_escape_code s c) = esc_cache_size c + 1"
    unfolding esc_cache_size_def eq using k by simp
  have "s \<notin> set (take (upper_bound (esc_cache c) s) (esc_cache c))"
    "s \<notin> set (drop (upper_bound (esc_cache c) s) (esc_cache c))"
    using a in_set_takeD in_set_dropD by fast+
  then show "count_list (esc_cache (add_escape_code s c)) s = 1"
    unfolding eq by (simp add: count_list_0_iff)
next
  have srt: "sorted (esc_cache (add_escape_code s c))"
    using sorted_insert_upper_bound [OF assms, of s] assms
    by (simp add: esc_cache_add_escape_code [OF assms])
  have "s \<in> set (esc_cache (add_escape_code s c))"
    by (simp add: esc_cache_add_escape_code [OF assms] set_insert_at)
  with srt show "add_escape_code s (add_escape_code s c) = add_escape_code s c"
    by (rule add_escape_code_present)
qed

text \<open>
  Claim C6. \<open>esc_cache_\<close> is private and only \<open>add_escape_code\<close> and \<open>clear\<close> change it, so
  a cache state holds what a sequence of \<open>add_escape_code\<close> calls on an empty cache left.
  In every such state, adding a string that is present changes nothing; adding an absent
  string inserts it once, at its upper bound, and leaves everything else alone; adding
  the same string a second time changes nothing.
\<close>

theorem add_escape_code_idempotent:
  assumes "esc_cache c = esc_cache (add_escape_codes strs)"
  shows "(s \<in> set (esc_cache c) \<longrightarrow> add_escape_code s c = c) \<and>
         (s \<notin> set (esc_cache c) \<longrightarrow>
            esc_cache (add_escape_code s c) =
              take (upper_bound (esc_cache c) s) (esc_cache c) @
              s # drop (upper_bound (esc_cache c) s) (esc_cache c) \<and>
            prompt_cache (add_escape_code s c) = prompt_cache c \<and>
            esc_cache_size (add_escape_code s c) = esc_cache_size c + 1 \<and>
            count_list (esc_cache (add_escape_code s c)) s = 1) \<and>
         add_escape_code s (add_escape_code s c) = add_escape_code s c"
proof -
  have "sorted (esc_cache c)" unfolding assms using add_escape_codes_invariant [of strs] by simp
  then show ?thesis by (rule add_escape_code_on_sorted)
qed

theorem add_escape_code_idempotent_witness:
  "esc_cache (add_escape_codes [[27, 91, 109], [27, 40, 66]]) = [[27, 40, 66], [27, 91, 109]] \<and>
   add_escape_code [27, 40, 66] (add_escape_codes [[27, 91, 109], [27, 40, 66]]) =
     add_escape_codes [[27, 91, 109], [27, 40, 66]] \<and>
   esc_cache (add_escape_code [27, 55] (add_escape_codes [[27, 91, 109], [27, 40, 66]])) =
     [[27, 40, 66], [27, 55], [27, 91, 109]]"
proof -
  let ?c = "add_escape_codes [[27, 91, 109], [27, 40, 66]]"
  have e: "esc_cache ?c = [[27, 40, 66], [27, 91, 109]]" by code_simp
  have u: "upper_bound [[27, 40, 66], [27, 91, 109 :: int]] [27, 55] = 1" by code_simp
  have m: "[27, 40, 66] \<in> set (esc_cache ?c)" unfolding e by simp
  have n: "[27, 55] \<notin> set (esc_cache ?c)" unfolding e by simp
  have a: "add_escape_code [27, 40, 66] ?c = ?c"
    using add_escape_code_idempotent [OF refl, of "[27, 40, 66]" "[[27, 91, 109], [27, 40, 66]]"] m
    by blast
  have "esc_cache (add_escape_code [27, 55] ?c) =
      take (upper_bound (esc_cache ?c) [27, 55]) (esc_cache ?c) @
      [27, 55] # drop (upper_bound (esc_cache ?c) [27, 55]) (esc_cache ?c)"
    using add_escape_code_idempotent [OF refl, of "[27, 55]" "[[27, 91, 109], [27, 40, 66]]"] n
    by blast
  then have b: "esc_cache (add_escape_code [27, 55] ?c) = [[27, 40, 66], [27, 55], [27, 91, 109]]"
    unfolding e u by simp
  from e a b show ?thesis by (intro conjI)
qed

section \<open>Claims about \<open>line_t\<close>\<close>

lemma line_ok_append_str: "line_ok l \<Longrightarrow> line_ok (append_str l cs color)"
  by (induction l cs color rule: append_str.induct) (simp_all add: line_ok_def append_char_def)

text \<open>
  Claim C8. A new line has as many colors as characters, and \<open>clear\<close>, both \<open>append\<close>s
  and \<open>append_line\<close> (of a line that has the property) keep it so; on such a line
  \<open>char_at\<close> and \<open>color_at\<close> are both in range at every index below \<open>size()\<close>.
\<close>

theorem line_t_text_colors_same_length:
  "line_ok line_t_new \<and>
   (line_ok l \<longrightarrow> line_ok (clear_line l)) \<and>
   (line_ok l \<longrightarrow> line_ok (append_char l c color)) \<and>
   (line_ok l \<longrightarrow> line_ok (append_str l txt color)) \<and>
   (line_ok l \<and> line_ok l2 \<longrightarrow> line_ok (append_line l l2)) \<and>
   (line_ok l \<and> idx < size_line l \<longrightarrow>
      char_at l idx = Inr (text_l l ! idx) \<and> color_at l idx = Inr (colors l ! idx))"
  by (simp add: line_ok_append_str)
    (simp add: line_ok_def line_t_new_def clear_line_def append_char_def append_line_def
      size_line_def char_at_def color_at_def)

theorem line_t_text_colors_same_length_witness:
  "line_ok (append_str line_t_new [104, 105, 0, 33] 7) \<and>
   size_line (append_str line_t_new [104, 105, 0, 33] 7) = 2 \<and>
   char_at (append_str line_t_new [104, 105, 0, 33] 7) 1 = Inr 105 \<and>
   color_at (append_str line_t_new [104, 105, 0, 33] 7) 1 = Inr 7 \<and>
   line_ok (append_line (append_char line_t_new 36 1) (append_str line_t_new [104, 105, 0, 33] 7)) \<and>
   line_ok (clear_line (append_char line_t_new 36 1))"
  using line_t_text_colors_same_length [of line_t_new 36 1 "[104, 105, 0, 33]"]
    line_t_text_colors_same_length [of "append_str line_t_new [104, 105, 0, 33] 7" 36 1 "[]"
      "append_char line_t_new 36 1" 1]
    line_t_text_colors_same_length [of "append_char line_t_new 36 1" 36 1 "[]"
      "append_str line_t_new [104, 105, 0, 33] 7" 0]
  by (simp add: line_ok_def line_t_new_def clear_line_def append_char_def append_line_def
      size_line_def char_at_def color_at_def)

section \<open>Claims about redirections\<close>

text \<open>
  Claim C9. \<open>get_target_as_fd\<close> is \<open>none\<close> exactly when \<open>fish_wcstoi\<close> left \<open>errno\<close> set or
  returned a negative number; otherwise it is the number \<open>fish_wcstoi\<close> returned, which
  is not negative.
\<close>

theorem get_target_as_fd_nonnegative:
  "(get_target_as_fd fish_wcstoi spec = None \<longleftrightarrow>
      snd (fish_wcstoi (spec_target spec) 0) \<noteq> 0 \<or> fst (fish_wcstoi (spec_target spec) 0) < 0) \<and>
   (\<forall>r. get_target_as_fd fish_wcstoi spec = Some r \<longrightarrow>
      0 \<le> r \<and> r = fst (fish_wcstoi (spec_target spec) 0) \<and>
      snd (fish_wcstoi (spec_target spec) 0) = 0)"
  by (auto simp: get_target_as_fd_def Let_def split: prod.splits if_splits)

theorem get_target_as_fd_nonnegative_witness:
  "get_target_as_fd (\<lambda>s e. if s = [50] then (2, e) else if s = [45, 49] then (- 1, e) else (0, 22))
     \<lparr>spec_fd = 1, spec_mode = mode_fd, spec_target = [50]\<rparr> = Some 2 \<and>
   get_target_as_fd (\<lambda>s e. if s = [50] then (2, e) else if s = [45, 49] then (- 1, e) else (0, 22))
     \<lparr>spec_fd = 1, spec_mode = mode_fd, spec_target = [45, 49]\<rparr> = None \<and>
   get_target_as_fd (\<lambda>s e. if s = [50] then (2, e) else if s = [45, 49] then (- 1, e) else (0, 22))
     \<lparr>spec_fd = 1, spec_mode = mode_fd, spec_target = [120]\<rparr> = None"
  using get_target_as_fd_nonnegative
    [of "\<lambda>s e. if s = [50] then (2, e) else if s = [45, 49] then (- 1, e) else (0, 22)"
      "\<lparr>spec_fd = 1, spec_mode = mode_fd, spec_target = [50]\<rparr>"]
  by (simp add: get_target_as_fd_def)

text \<open>
  Claim C10. For a negative target \<open>fd_for_target_fd\<close> returns the target itself, whatever
  the action list holds.
\<close>

theorem fd_for_target_fd_negative:
  "target < 0 \<Longrightarrow>
   fd_for_target_fd l target = target \<and> fd_for_target_fd l target = fd_for_target_fd l' target"
  by (simp add: fd_for_target_fd_def)

theorem fd_for_target_fd_negative_witness:
  "(- 1 :: int) < 0 \<and>
   fd_for_target_fd \<lparr>actions = [\<lparr>act_src = 5, act_target = - 1\<rparr>, \<lparr>act_src = 3, act_target = 1\<rparr>]\<rparr> (- 1) = - 1 \<and>
   fd_for_target_fd \<lparr>actions = [\<lparr>act_src = 5, act_target = - 1\<rparr>, \<lparr>act_src = 3, act_target = 1\<rparr>]\<rparr> 1 = 3"
proof -
  have h: "(- 1 :: int) < 0" by simp
  show ?thesis
    using fd_for_target_fd_negative [OF h,
        of "\<lparr>actions = [\<lparr>act_src = 5, act_target = - 1\<rparr>, \<lparr>act_src = 3, act_target = 1\<rparr>]\<rparr>"]
    by (simp add: fd_for_target_fd_def)
qed

section \<open>Claims about the prompt cache\<close>

lemma prompt_scan_Some:
  "prompt_scan inp pc = Some i \<Longrightarrow> i < length pc \<and> fst (pc ! i) = inp"
proof (induction pc arbitrary: i)
  case Nil
  then show ?case by simp
next
  case (Cons e es)
  show ?case
  proof (cases "fst e = inp")
    case True
    with Cons.prems show ?thesis by simp
  next
    case False
    with Cons.prems obtain j where j: "prompt_scan inp es = Some j" "i = Suc j" by auto
    from Cons.IH [OF j(1)] j(2) show ?thesis by simp
  qed
qed

lemma find_prompt_layout_length:
  "length (prompt_cache (snd (find_prompt_layout inp c))) = length (prompt_cache c)"
proof (cases "prompt_scan inp (prompt_cache c)")
  case None
  then show ?thesis by (simp add: find_prompt_layout_def)
next
  case (Some i)
  from prompt_scan_Some [OF Some] have "i < length (prompt_cache c)" by simp
  then have "Suc (length (take i (prompt_cache c) @ drop (Suc i) (prompt_cache c))) =
      length (prompt_cache c)" by simp
  with Some show ?thesis by (simp add: find_prompt_layout_def del: length_append length_take length_drop)
qed

lemma find_prompt_layout_hit:
  assumes "find_prompt_layout inp c = (Some layout, c')"
  shows "prompt_cache c' \<noteq> [] \<and> prompt_cache c' ! 0 = (inp, layout) \<and>
         length (prompt_cache c') = length (prompt_cache c)"
proof (cases "prompt_scan inp (prompt_cache c)")
  case None
  with assms show ?thesis by (simp add: find_prompt_layout_def)
next
  case (Some i)
  from prompt_scan_Some [OF Some]
  have i: "i < length (prompt_cache c)" "fst (prompt_cache c ! i) = inp" by simp_all
  from assms Some have l: "layout = snd (prompt_cache c ! i)"
    and c': "c' = c\<lparr>prompt_cache :=
        prompt_cache c ! i # take i (prompt_cache c) @ drop (Suc i) (prompt_cache c)\<rparr>"
    by (simp_all add: find_prompt_layout_def)
  have "length (prompt_cache c') = length (prompt_cache c)"
    using find_prompt_layout_length [of inp c] assms by simp
  moreover have "prompt_cache c' ! 0 = (inp, layout)" using i(2) l c' by (simp add: prod_eq_iff)
  moreover have "prompt_cache c' \<noteq> []" using c' by simp
  ultimately show ?thesis by simp
qed

lemma add_prompt_layout_length:
  "length (prompt_cache c) \<le> prompt_cache_max_size \<Longrightarrow>
   length (prompt_cache (add_prompt_layout inp layout c)) \<le> prompt_cache_max_size"
  by (simp add: add_prompt_layout_def Let_def)

lemma cache_step_length:
  "length (prompt_cache c) \<le> prompt_cache_max_size \<Longrightarrow>
   length (prompt_cache (cache_step c call)) \<le> prompt_cache_max_size"
  by (cases call)
    (simp_all add: add_prompt_layout_length find_prompt_layout_length clear_cache_def
      add_escape_code_def Let_def)

lemma cache_run_length: "length (prompt_cache (cache_run calls)) \<le> prompt_cache_max_size"
proof (induction calls rule: rev_induct)
  case Nil
  show ?case by (simp add: cache_run_def layout_cache_new_def)
next
  case (snoc call calls)
  have "cache_run (calls @ [call]) = cache_step (cache_run calls) call"
    by (simp add: cache_run_def)
  with cache_step_length [OF snoc] show ?case by simp
qed

text \<open>
  Claim C5. After any sequence of calls on a new cache the prompt cache holds at most 8
  entries, and a \<open>find_prompt_layout\<close> that hits leaves a cache of at most 8 entries whose
  first entry (index 0) is the prompt that was looked up, with the layout it returned.
\<close>

theorem prompt_cache_bounded_and_promoted:
  "length (prompt_cache (cache_run calls)) \<le> 8 \<and>
   (\<forall>inp layout c'. find_prompt_layout inp (cache_run calls) = (Some layout, c') \<longrightarrow>
      length (prompt_cache c') \<le> 8 \<and> prompt_cache c' \<noteq> [] \<and>
      prompt_cache c' ! 0 = (inp, layout))"
proof (intro conjI allI impI)
  show b: "length (prompt_cache (cache_run calls)) \<le> 8"
    using cache_run_length [of calls] by (simp add: prompt_cache_max_size_def)
  fix inp layout c'
  assume h: "find_prompt_layout inp (cache_run calls) = (Some layout, c')"
  from find_prompt_layout_hit [OF h] b
  show "length (prompt_cache c') \<le> 8" "prompt_cache c' \<noteq> []"
    "prompt_cache c' ! 0 = (inp, layout)" by simp_all
qed

theorem prompt_cache_bounded_and_promoted_witness:
  "length (prompt_cache (cache_run
     [Add_Prompt_Layout [1] \<lparr>line_count = 1, max_line_width = 2, last_line_width = 2\<rparr>,
      Add_Prompt_Layout [2] \<lparr>line_count = 2, max_line_width = 5, last_line_width = 3\<rparr>,
      Add_Prompt_Layout [3] \<lparr>line_count = 1, max_line_width = 2, last_line_width = 2\<rparr>,
      Add_Prompt_Layout [4] \<lparr>line_count = 1, max_line_width = 2, last_line_width = 2\<rparr>,
      Add_Prompt_Layout [5] \<lparr>line_count = 1, max_line_width = 2, last_line_width = 2\<rparr>,
      Add_Prompt_Layout [6] \<lparr>line_count = 1, max_line_width = 2, last_line_width = 2\<rparr>,
      Add_Prompt_Layout [7] \<lparr>line_count = 1, max_line_width = 2, last_line_width = 2\<rparr>,
      Add_Prompt_Layout [8] \<lparr>line_count = 1, max_line_width = 2, last_line_width = 2\<rparr>,
      Add_Prompt_Layout [9] \<lparr>line_count = 1, max_line_width = 2, last_line_width = 2\<rparr>])) = 8 \<and>
   fst (find_prompt_layout [2] (cache_run
     [Add_Prompt_Layout [1] \<lparr>line_count = 1, max_line_width = 2, last_line_width = 2\<rparr>,
      Add_Prompt_Layout [2] \<lparr>line_count = 2, max_line_width = 5, last_line_width = 3\<rparr>,
      Add_Prompt_Layout [3] \<lparr>line_count = 1, max_line_width = 2, last_line_width = 2\<rparr>,
      Add_Prompt_Layout [4] \<lparr>line_count = 1, max_line_width = 2, last_line_width = 2\<rparr>,
      Add_Prompt_Layout [5] \<lparr>line_count = 1, max_line_width = 2, last_line_width = 2\<rparr>,
      Add_Prompt_Layout [6] \<lparr>line_count = 1, max_line_width = 2, last_line_width = 2\<rparr>,
      Add_Prompt_Layout [7] \<lparr>line_count = 1, max_line_width = 2, last_line_width = 2\<rparr>,
      Add_Prompt_Layout [8] \<lparr>line_count = 1, max_line_width = 2, last_line_width = 2\<rparr>,
      Add_Prompt_Layout [9] \<lparr>line_count = 1, max_line_width = 2, last_line_width = 2\<rparr>])) =
     Some \<lparr>line_count = 2, max_line_width = 5, last_line_width = 3\<rparr> \<and>
   prompt_cache (snd (find_prompt_layout [2] (cache_run
     [Add_Prompt_Layout [1] \<lparr>line_count = 1, max_line_width = 2, last_line_width = 2\<rparr>,
      Add_Prompt_Layout [2] \<lparr>line_count = 2, max_line_width = 5, last_line_width = 3\<rparr>,
      Add_Prompt_Layout [3] \<lparr>line_count = 1, max_line_width = 2, last_line_width = 2\<rparr>,
      Add_Prompt_Layout [4] \<lparr>line_count = 1, max_line_width = 2, last_line_width = 2\<rparr>,
      Add_Prompt_Layout [5] \<lparr>line_count = 1, max_line_width = 2, last_line_width = 2\<rparr>,
      Add_Prompt_Layout [6] \<lparr>line_count = 1, max_line_width = 2, last_line_width = 2\<rparr>,
      Add_Prompt_Layout [7] \<lparr>line_count = 1, max_line_width = 2, last_line_width = 2\<rparr>,
      Add_Prompt_Layout [8] \<lparr>line_count = 1, max_line_width = 2, last_line_width = 2\<rparr>,
      Add_Prompt_Layout [9] \<lparr>line_count = 1, max_line_width = 2, last_line_width = 2\<rparr>]))) ! 0 =
     ([2], \<lparr>line_count = 2, max_line_width = 5, last_line_width = 3\<rparr>)"
proof -
  let ?calls = "[Add_Prompt_Layout [1] \<lparr>line_count = 1, max_line_width = 2, last_line_width = 2\<rparr>,
      Add_Prompt_Layout [2] \<lparr>line_count = 2, max_line_width = 5, last_line_width = 3\<rparr>,
      Add_Prompt_Layout [3] \<lparr>line_count = 1, max_line_width = 2, last_line_width = 2\<rparr>,
      Add_Prompt_Layout [4] \<lparr>line_count = 1, max_line_width = 2, last_line_width = 2\<rparr>,
      Add_Prompt_Layout [5] \<lparr>line_count = 1, max_line_width = 2, last_line_width = 2\<rparr>,
      Add_Prompt_Layout [6] \<lparr>line_count = 1, max_line_width = 2, last_line_width = 2\<rparr>,
      Add_Prompt_Layout [7] \<lparr>line_count = 1, max_line_width = 2, last_line_width = 2\<rparr>,
      Add_Prompt_Layout [8] \<lparr>line_count = 1, max_line_width = 2, last_line_width = 2\<rparr>,
      Add_Prompt_Layout [9] \<lparr>line_count = 1, max_line_width = 2, last_line_width = 2\<rparr>]"
  have l: "length (prompt_cache (cache_run ?calls)) = 8" by code_simp
  have f: "fst (find_prompt_layout [2] (cache_run ?calls)) =
      Some \<lparr>line_count = 2, max_line_width = 5, last_line_width = 3\<rparr>" by code_simp
  then have h: "find_prompt_layout [2] (cache_run ?calls) =
      (Some \<lparr>line_count = 2, max_line_width = 5, last_line_width = 3\<rparr>,
       snd (find_prompt_layout [2] (cache_run ?calls)))" by (simp add: prod_eq_iff)
  have "prompt_cache (snd (find_prompt_layout [2] (cache_run ?calls))) ! 0 =
      ([2], \<lparr>line_count = 2, max_line_width = 5, last_line_width = 3\<rparr>)"
    using prompt_cache_bounded_and_promoted [of ?calls] h by blast
  with l f show ?thesis by (intro conjI)
qed

section \<open>Claims about \<open>escape_code_length\<close>\<close>

lemma find_escape_code_sound:
  assumes "nul_free (esc_cache c)" and "find_escape_code c s \<noteq> 0"
  shows "find_escape_code c s \<le> length s \<and> take (find_escape_code c s) s \<in> set (esc_cache c)"
proof -
  let ?pos = "upper_bound (esc_cache c) (c_str s)"
  let ?cand = "esc_cache c ! (?pos - 1)"
  from assms(2) have pos: "?pos \<noteq> 0" and pre: "string_prefixes_string ?cand s"
    and eq: "find_escape_code c s = length ?cand"
    by (auto simp: find_escape_code_def Let_def split: if_splits)
  have "?pos - 1 < length (esc_cache c)"
    using pos upper_bound_le_length [of "esc_cache c" "c_str s"] by linarith
  then have mem: "?cand \<in> set (esc_cache c)" by (rule nth_mem)
  with assms(1) have "0 \<notin> set ?cand" by (simp add: nul_free_def)
  with pre have "prefix ?cand (c_str s)" by (simp add: string_prefixes_string_nul_free)
  then have "prefix ?cand s" by (rule prefix_of_c_str)
  then obtain r where r: "s = ?cand @ r" by (auto simp: prefix_def)
  have "take (length ?cand) s = ?cand" by (subst r) simp
  moreover have "length ?cand \<le> length s" by (subst r) simp
  ultimately show ?thesis using mem unfolding eq by simp
qed

lemma find_escape_code_complete:
  assumes "sorted (esc_cache c)" and "prefix_free (esc_cache c)" and "nul_free (esc_cache c)"
    and "t \<in> set (esc_cache c)" and "prefix t s" and "t \<noteq> []"
  shows "find_escape_code c s \<noteq> 0"
proof -
  have z: "0 \<notin> set t" using assms(3,4) by (simp add: nul_free_def)
  then have pre: "prefix t (c_str s)" using assms(5) by (rule prefix_c_str)
  have "upper_bound (esc_cache c) (c_str s) \<noteq> 0"
    and "esc_cache c ! (upper_bound (esc_cache c) (c_str s) - 1) = t"
    using find_escape_code_candidate [OF assms(1,2,4) pre] by (rule conjunct1, rule conjunct2)
  moreover have "string_prefixes_string t s"
    using z pre by (simp add: string_prefixes_string_nul_free)
  ultimately have "find_escape_code c s = length t"
    by (simp add: find_escape_code_def Let_def)
  with assms(6) show ?thesis by simp
qed

lemma csi_sound:
  assumes "csi_length s \<noteq> 0"
  shows "csi_length s \<le> length s \<and> csi_sequence (take (csi_length s) s)"
proof -
  from assms obtain rest where s: "s = 27 # 91 # rest"
    by (auto simp: csi_length_def split: list.splits if_splits)
  let ?run = "takeWhile is_csi_run_byte rest"
  from assms s obtain f r where d: "dropWhile is_csi_run_byte rest = f # r"
    and f: "is_csi_final_byte f"
    by (auto simp: csi_length_def split: list.splits if_splits)
  have n: "csi_length s = 2 + length ?run + 1" using s d f by (simp add: csi_length_def)
  have rest: "rest = ?run @ f # r" using takeWhile_dropWhile_id [of is_csi_run_byte rest] d by simp
  have t: "take (csi_length s) s = [27, 91] @ ?run @ [f]"
    unfolding n by (subst s, subst (2) rest) simp
  have len: "csi_length s \<le> length s"
    unfolding n by (subst s, subst (2) rest) simp
  have "\<forall>b \<in> set ?run. 32 \<le> b \<and> b \<le> 63"
    using set_takeWhileD [of _ is_csi_run_byte rest] by (auto simp: is_csi_run_byte_def)
  with f have "csi_sequence ([27, 91] @ ?run @ [f])"
    unfolding csi_sequence_def is_csi_final_byte_def by blast
  with t len show ?thesis by simp
qed

lemma csi_complete:
  assumes "csi_sequence t" and "prefix t s"
  shows "csi_length s \<noteq> 0"
proof -
  from assms(1) obtain run f where t: "t = [27, 91] @ run @ [f]"
    and run: "\<forall>b \<in> set run. 32 \<le> b \<and> b \<le> 63" and f: "64 \<le> f" "f \<le> 126"
    unfolding csi_sequence_def by blast
  from assms(2) t obtain r where s: "s = 27 # 91 # (run @ f # r)" by (auto simp: prefix_def)
  have all: "\<forall>b \<in> set run. is_csi_run_byte b" using run by (simp add: is_csi_run_byte_def)
  have nf: "\<not> is_csi_run_byte f" using f by (simp add: is_csi_run_byte_def)
  have d: "dropWhile is_csi_run_byte (run @ f # r) = f # r"
    using all nf by (simp add: dropWhile_append3)
  show ?thesis using d f by (simp add: s csi_length_def is_csi_final_byte_def)
qed

lemma osc_end_sound:
  "osc_end xs \<noteq> 0 \<Longrightarrow>
   osc_end xs \<le> length xs \<and>
   (\<exists>body fin. take (osc_end xs) xs = body @ fin \<and> (fin = [7] \<or> fin = [27, 92]) \<and>
      7 \<notin> set body \<and> \<not> sublist [27, 92] body)"
proof (induction xs)
  case Nil
  then show ?case by simp
next
  case (Cons c cs)
  show ?case
  proof (cases "c = 7")
    case True
    then have "take (osc_end (c # cs)) (c # cs) = [] @ [7]" by simp
    then show ?thesis using True by (intro conjI exI [of _ "[]"] exI [of _ "[7]"]) simp_all
  next
    case n7: False
    show ?thesis
    proof (cases "c = 27 \<and> cs \<noteq> [] \<and> hd cs = 92")
      case True
      then obtain r where cs: "cs = 92 # r" by (cases cs) auto
      have "take (osc_end (c # cs)) (c # cs) = [] @ [27, 92]" using True cs by simp
      then show ?thesis using True cs
        by (intro conjI exI [of _ "[]"] exI [of _ "[27, 92]"]) simp_all
    next
      case nst: False
      with n7 Cons.prems obtain n where n: "osc_end cs = Suc n"
        by (auto split: nat.splits)
      then have e: "osc_end (c # cs) = Suc (Suc n)" using n7 nst by auto
      from Cons.IH n obtain body fin where le: "Suc n \<le> length cs"
        and tk: "take (Suc n) cs = body @ fin" and fin: "fin = [7] \<or> fin = [27, 92]"
        and b7: "7 \<notin> set body" and bst: "\<not> sublist [27, 92] body" by auto
      have tk': "take (osc_end (c # cs)) (c # cs) = (c # body) @ fin" using e tk by simp
      have "\<not> prefix [27, 92] (c # body)"
      proof
        assume "prefix [27, 92] (c # body)"
        then obtain b' where c: "c = 27" and body: "body = 92 # b'"
          by (cases body) (auto simp: prefix_def)
        from tk body have "hd cs = 92" "cs \<noteq> []" by (cases cs; simp)+
        with c nst show False by simp
      qed
      with bst have "\<not> sublist [27, 92] (c # body)" by (simp add: sublist_Cons_right)
      moreover have "7 \<notin> set (c # body)" using n7 b7 by simp
      ultimately show ?thesis using tk' fin le e by (intro conjI exI [of _ "c # body"] exI [of _ fin]) simp_all
    qed
  qed
qed

lemma osc_end_complete:
  "fin = [7] \<or> fin = [27, 92] \<Longrightarrow> 7 \<notin> set body \<Longrightarrow> \<not> sublist [27, 92] body \<Longrightarrow>
   osc_end (body @ fin @ r) \<noteq> 0"
proof (induction body)
  case Nil
  then show ?case by auto
next
  case (Cons b bs)
  have b7: "b \<noteq> 7" using Cons.prems(2) by simp
  have nst: "\<not> (b = 27 \<and> bs @ fin @ r \<noteq> [] \<and> hd (bs @ fin @ r) = 92)"
  proof
    assume a: "b = 27 \<and> bs @ fin @ r \<noteq> [] \<and> hd (bs @ fin @ r) = 92"
    show False
    proof (cases bs)
      case Nil
      with a Cons.prems(1) show False by auto
    next
      case (Cons b' bs')
      with a have "prefix [27, 92] (b # bs)" by simp
      then have "sublist [27, 92] (b # bs)" by (rule prefix_imp_sublist)
      with Cons.prems(3) show False by simp
    qed
  qed
  have "\<not> sublist [27, 92] bs" using Cons.prems(3) by (simp add: sublist_Cons_right)
  with Cons.IH Cons.prems have "osc_end (bs @ fin @ r) \<noteq> 0" by simp
  then obtain n where "osc_end (bs @ fin @ r) = Suc n" by (cases "osc_end (bs @ fin @ r)") auto
  with b7 nst show ?case by auto
qed

lemma osc_sound:
  assumes "osc_length s \<noteq> 0"
  shows "osc_length s \<le> length s \<and> osc_sequence (take (osc_length s) s)"
proof -
  from assms obtain rest where s: "s = 27 # 93 # rest"
    by (auto simp: osc_length_def split: list.splits if_splits)
  from assms s obtain n where n: "osc_end rest = Suc n"
    by (auto simp: osc_length_def split: nat.splits)
  then have e: "osc_length s = Suc (Suc (osc_end rest))" using s by (simp add: osc_length_def)
  from osc_end_sound [of rest] n obtain body fin where le: "osc_end rest \<le> length rest"
    and tk: "take (osc_end rest) rest = body @ fin" and fin: "fin = [7] \<or> fin = [27, 92]"
    and b: "7 \<notin> set body" "\<not> sublist [27, 92] body" by auto
  have "take (osc_length s) s = [27, 93] @ body @ fin" unfolding e using s tk by simp
  moreover have "osc_sequence ([27, 93] @ body @ fin)"
    unfolding osc_sequence_def using fin b by blast
  moreover have "osc_length s \<le> length s" unfolding e using s le by simp
  ultimately show ?thesis by simp
qed

lemma osc_complete:
  assumes "osc_sequence t" and "prefix t s"
  shows "osc_length s \<noteq> 0"
proof -
  from assms(1) obtain body fin where t: "t = [27, 93] @ body @ fin"
    and fin: "fin = [7] \<or> fin = [27, 92]" and b: "7 \<notin> set body" "\<not> sublist [27, 92] body"
    unfolding osc_sequence_def by blast
  from assms(2) t obtain r where s: "s = 27 # 93 # (body @ fin @ r)" by (auto simp: prefix_def)
  from osc_end_complete [OF fin b, of r] obtain n where "osc_end (body @ fin @ r) = Suc n"
    by (cases "osc_end (body @ fin @ r)") auto
  then show ?thesis by (simp add: s osc_length_def)
qed

lemma two_byte_sound:
  assumes "two_byte_length s \<noteq> 0"
  shows "two_byte_length s \<le> length s \<and> two_byte_sequence (take (two_byte_length s) s)"
  using assms
  by (auto simp: two_byte_length_def two_byte_sequence_def split: list.splits if_splits)

lemma two_byte_complete:
  assumes "two_byte_sequence t" and "prefix t s"
  shows "two_byte_length s \<noteq> 0"
proof -
  from assms(1) obtain b where t: "t = [27, b]" and b: "32 \<le> b" "b \<le> 126" "b \<noteq> 91" "b \<noteq> 93"
    unfolding two_byte_sequence_def by blast
  from assms(2) t obtain r where "s = 27 # b # r" by (auto simp: prefix_def)
  with b show ?thesis by (simp add: two_byte_length_def)
qed

lemma capability_sound:
  "capability_length caps s \<noteq> 0 \<Longrightarrow>
   capability_length caps s \<le> length s \<and> take (capability_length caps s) s \<in> set caps"
proof (induction caps)
  case Nil
  then show ?case by simp
next
  case (Cons cap caps)
  show ?case
  proof (cases "prefix cap s \<and> capability_length caps s \<le> length cap")
    case True
    then obtain r where "s = cap @ r" by (auto simp: prefix_def)
    with True show ?thesis by (simp add: max_def)
  next
    case False
    then have "capability_length (cap # caps) s = capability_length caps s"
      by (auto simp: max_def)
    with Cons show ?thesis by simp
  qed
qed

lemma capability_complete:
  "t \<in> set caps \<Longrightarrow> prefix t s \<Longrightarrow> length t \<le> capability_length caps s"
  by (induction caps) auto

lemma escape_code_length_0_iff:
  "escape_code_length c caps s = 0 \<longleftrightarrow>
   find_escape_code c s = 0 \<and> csi_length s = 0 \<and> osc_length s = 0 \<and>
   two_byte_length s = 0 \<and> capability_length caps s = 0"
  by (simp add: escape_code_length_def)

lemma escape_code_length_sound:
  assumes "nul_free (esc_cache c)" and "escape_code_length c caps s \<noteq> 0"
  shows "escape_code_length c caps s \<le> length s \<and>
         escape_sequence c caps (take (escape_code_length c caps s) s)"
proof -
  let ?n = "escape_code_length c caps s"
  have kind: "?n \<le> length s \<and>
      (take ?n s \<in> set (esc_cache c) \<or> csi_sequence (take ?n s) \<or> osc_sequence (take ?n s) \<or>
       two_byte_sequence (take ?n s) \<or> take ?n s \<in> set caps)"
  proof (cases "find_escape_code c s \<noteq> 0")
    case True
    then have "?n = find_escape_code c s" by (simp add: escape_code_length_def)
    with find_escape_code_sound [OF assms(1) True] show ?thesis by simp
  next
    case f: False
    show ?thesis
    proof (cases "csi_length s \<noteq> 0")
      case True
      then have "?n = csi_length s" using f by (simp add: escape_code_length_def)
      with csi_sound [OF True] show ?thesis by simp
    next
      case c: False
      show ?thesis
      proof (cases "osc_length s \<noteq> 0")
        case True
        then have "?n = osc_length s" using f c by (simp add: escape_code_length_def)
        with osc_sound [OF True] show ?thesis by simp
      next
        case o: False
        show ?thesis
        proof (cases "two_byte_length s \<noteq> 0")
          case True
          then have "?n = two_byte_length s" using f c o by (simp add: escape_code_length_def)
          with two_byte_sound [OF True] show ?thesis by simp
        next
          case t: False
          then have n: "?n = capability_length caps s"
            using f c o by (simp add: escape_code_length_def)
          with assms(2) have "capability_length caps s \<noteq> 0" by simp
          from capability_sound [OF this] n show ?thesis by simp
        qed
      qed
    qed
  qed
  moreover have "take ?n s \<noteq> []" using assms(2) kind by auto
  ultimately show ?thesis by (simp add: escape_sequence_def)
qed

lemma escape_code_length_complete:
  assumes "sorted (esc_cache c)" and "prefix_free (esc_cache c)" and "nul_free (esc_cache c)"
    and "prefix t s" and "escape_sequence c caps t"
  shows "escape_code_length c caps s \<noteq> 0"
proof -
  from assms(5) have ne: "t \<noteq> []"
    and kinds: "t \<in> set (esc_cache c) \<or> csi_sequence t \<or> osc_sequence t \<or>
                two_byte_sequence t \<or> t \<in> set caps"
    by (simp_all add: escape_sequence_def)
  from kinds consider "t \<in> set (esc_cache c)" | "csi_sequence t" | "osc_sequence t"
    | "two_byte_sequence t" | "t \<in> set caps" by blast
  then show ?thesis
  proof cases
    case 1
    from find_escape_code_complete [OF assms(1,2,3) 1 assms(4) ne]
    show ?thesis by (simp add: escape_code_length_0_iff)
  next
    case 2
    from csi_complete [OF 2 assms(4)] show ?thesis by (simp add: escape_code_length_0_iff)
  next
    case 3
    from osc_complete [OF 3 assms(4)] show ?thesis by (simp add: escape_code_length_0_iff)
  next
    case 4
    from two_byte_complete [OF 4 assms(4)] show ?thesis by (simp add: escape_code_length_0_iff)
  next
    case 5
    from capability_complete [OF 5 assms(4)] ne show ?thesis
      by (auto simp: escape_code_length_0_iff)
  qed
qed

text \<open>
  Claim C4, as amended. On a cache none of whose entries holds a NUL: a result of
  \<open>escape_code_length s\<close> that is not 0 is at most the length of \<open>s\<close>, and that many
  leading code units of \<open>s\<close> are one escape sequence; and when the cache, as a sequence
  of \<open>add_escape_code\<close> calls left it, is prefix-free, the result is 0 exactly when no
  escape sequence is a prefix of \<open>s\<close>.
\<close>

theorem escape_code_length_recognizes:
  assumes "nul_free (esc_cache c)"
  shows "(escape_code_length c caps s \<noteq> 0 \<longrightarrow>
            escape_code_length c caps s \<le> length s \<and>
            escape_sequence c caps (take (escape_code_length c caps s) s)) \<and>
         (esc_cache c = esc_cache (add_escape_codes strs) \<and> prefix_free (esc_cache c) \<longrightarrow>
            (escape_code_length c caps s = 0 \<longleftrightarrow>
               \<not> (\<exists>t. prefix t s \<and> escape_sequence c caps t)))"
proof (intro conjI impI)
  assume nz: "escape_code_length c caps s \<noteq> 0"
  from escape_code_length_sound [OF assms nz]
  show "escape_code_length c caps s \<le> length s"
    and "escape_sequence c caps (take (escape_code_length c caps s) s)" by simp_all
next
  assume h: "esc_cache c = esc_cache (add_escape_codes strs) \<and> prefix_free (esc_cache c)"
  then have pf: "prefix_free (esc_cache c)" by (rule conjunct2)
  from h have eq: "esc_cache c = esc_cache (add_escape_codes strs)" by (rule conjunct1)
  have srt: "sorted (esc_cache c)"
    unfolding eq using add_escape_codes_invariant [of strs] by simp
  show "escape_code_length c caps s = 0 \<longleftrightarrow>
      \<not> (\<exists>t. prefix t s \<and> escape_sequence c caps t)"
  proof (intro iffI notI)
    assume z: "escape_code_length c caps s = 0"
      and "\<exists>t. prefix t s \<and> escape_sequence c caps t"
    then obtain t where "prefix t s" "escape_sequence c caps t" by blast
    from escape_code_length_complete [OF srt pf assms this] z show False by simp
  next
    assume n: "\<not> (\<exists>t. prefix t s \<and> escape_sequence c caps t)"
    show "escape_code_length c caps s = 0"
    proof (rule ccontr)
      assume nz: "escape_code_length c caps s \<noteq> 0"
      have "prefix (take (escape_code_length c caps s) s) s" by (rule take_is_prefix)
      with escape_code_length_sound [OF assms nz] n show False by blast
    qed
  qed
qed

theorem escape_code_length_recognizes_witness:
  "nul_free (esc_cache (add_escape_codes [[27, 93, 48, 59, 116, 105, 116, 108, 101, 7]])) \<and>
   prefix_free (esc_cache (add_escape_codes [[27, 93, 48, 59, 116, 105, 116, 108, 101, 7]])) \<and>
   escape_code_length (add_escape_codes [[27, 93, 48, 59, 116, 105, 116, 108, 101, 7]])
     [[], [27, 40, 66]] [27, 91, 51, 49, 109, 104, 105] = 5 \<and>
   escape_sequence (add_escape_codes [[27, 93, 48, 59, 116, 105, 116, 108, 101, 7]])
     [[], [27, 40, 66]] [27, 91, 51, 49, 109] \<and>
   escape_code_length (add_escape_codes [[27, 93, 48, 59, 116, 105, 116, 108, 101, 7]])
     [[], [27, 40, 66]] [104, 105] = 0 \<and>
   \<not> escape_sequence (add_escape_codes [[27, 93, 48, 59, 116, 105, 116, 108, 101, 7]])
     [[], [27, 40, 66]] [104] \<and>
   escape_code_length (add_escape_codes [[27, 93, 48, 59, 116, 105, 116, 108, 101, 7]])
     [[], [27, 40, 66]] [27, 93, 48, 59, 116, 105, 116, 108, 101, 7, 114, 101, 115, 116] = 10"
proof -
  let ?c = "add_escape_codes [[27, 93, 48, 59, 116, 105, 116, 108, 101, 7]]"
  let ?caps = "[[], [27, 40, 66 :: int]]"
  have e: "esc_cache ?c = [[27, 93, 48, 59, 116, 105, 116, 108, 101, 7]]" by code_simp
  have z: "nul_free (esc_cache ?c)" unfolding e by (simp add: nul_free_def)
  have p: "prefix_free (esc_cache ?c)" unfolding e by (simp add: prefix_free_def)
  have a: "escape_code_length ?c ?caps [27, 91, 51, 49, 109, 104, 105] = 5" by code_simp
  have b: "escape_code_length ?c ?caps [104, 105] = 0" by code_simp
  have d: "escape_code_length ?c ?caps
      [27, 93, 48, 59, 116, 105, 116, 108, 101, 7, 114, 101, 115, 116] = 10" by code_simp
  note t1 = escape_code_length_recognizes
    [OF z, of ?caps "[27, 91, 51, 49, 109, 104, 105]"
      "[[27, 93, 48, 59, 116, 105, 116, 108, 101, 7]]"]
  note t2 = escape_code_length_recognizes
    [OF z, of ?caps "[104, 105]" "[[27, 93, 48, 59, 116, 105, 116, 108, 101, 7]]"]
  have "escape_sequence ?c ?caps
      (take (escape_code_length ?c ?caps [27, 91, 51, 49, 109, 104, 105])
        [27, 91, 51, 49, 109, 104, 105])"
    using t1 a by simp
  then have q: "escape_sequence ?c ?caps [27, 91, 51, 49, 109]" unfolding a by simp
  have "\<not> (\<exists>t. prefix t [104, 105] \<and> escape_sequence ?c ?caps t)"
    using t2 p b by blast
  moreover have "prefix [104] [104, 105 :: int]" by simp
  ultimately have r: "\<not> escape_sequence ?c ?caps [104]" by blast
  from z p a q b r d show ?thesis by (intro conjI)
qed

text \<open>
  The claim as stated fails twice. On a cache that is not prefix-free, which
  \<open>add_escape_code\<close> allows: with the carriage return and the pair carriage return, line
  feed registered, the binary search stops at the pair, which is not a prefix of a
  carriage return followed by \<open>x\<close>, and the result is 0 although a registered string
  begins there. On a cache entry with a NUL in it: with \<open>a NUL b\<close> registered the result
  for \<open>ax\<close> is 3, more than the length of \<open>ax\<close>.
\<close>

theorem escape_code_length_misses_registered:
  "esc_cache (add_escape_codes [[13], [13, 10]]) = [[13], [13, 10]] \<and>
   prefix [13] [13, 120 :: int] \<and>
   escape_sequence (add_escape_codes [[13], [13, 10]]) [] [13] \<and>
   escape_code_length (add_escape_codes [[13], [13, 10]]) [] [13, 120] = 0 \<and>
   esc_cache (add_escape_codes [[97, 0, 98]]) = [[97, 0, 98]] \<and>
   escape_code_length (add_escape_codes [[97, 0, 98]]) [] [97, 120] = 3 \<and>
   length [97, 120 :: int] = 2"
proof -
  have e: "esc_cache (add_escape_codes [[13], [13, 10]]) = [[13], [13, 10]]" by code_simp
  have z: "escape_code_length (add_escape_codes [[13], [13, 10]]) [] [13, 120] = 0" by code_simp
  have q: "escape_sequence (add_escape_codes [[13], [13, 10]]) [] [13]"
    unfolding escape_sequence_def e by simp
  have e2: "esc_cache (add_escape_codes [[97, 0, 98]]) = [[97, 0, 98]]" by code_simp
  have z2: "escape_code_length (add_escape_codes [[97, 0, 98]]) [] [97, 120] = 3" by code_simp
  from e z q e2 z2 show ?thesis by simp
qed

section \<open>Claims about \<open>s_write\<close>\<close>

lemma clear_screen_step_Inl:
  "clear_screen_step wr s w = Inl (e, s') \<Longrightarrow> s' = s"
  by (auto simp: clear_screen_step_def split: if_splits sum.splits)

lemma clear_screen_step_Inr:
  "clear_screen_step wr s w = Inr (s1, w1) \<Longrightarrow>
   desired s1 = desired s \<and>
   (if need_clear_screen s then actual s1 = (actual s)\<lparr>line_datas := []\<rparr> else actual s1 = actual s)"
  by (auto simp: clear_screen_step_def split: if_splits sum.splits)

lemma diff_row_Inl:
  "diff_row wr env known clr row (s, w, style) = Inl (e, s') \<Longrightarrow> s' = s"
  by (auto simp: diff_row_def Let_def split: if_splits sum.splits prod.splits)

lemma diff_row_Inr:
  "diff_row wr env known clr row (s, w, style) = Inr ((s', w', style'), brk) \<Longrightarrow>
   desired s' = desired s \<and> actual s' = actual s"
  by (auto simp: diff_row_def Let_def split: if_splits sum.splits prod.splits)

lemma diff_rows_frame:
  "(diff_rows wr env known clr rows (s, w, style) = Inl (e, s') \<longrightarrow>
      desired s' = desired s \<and> actual s' = actual s) \<and>
   (diff_rows wr env known clr rows (s, w, style) = Inr (s', w', style') \<longrightarrow>
      desired s' = desired s \<and> actual s' = actual s)"
proof (induction rows arbitrary: s w style)
  case Nil
  show ?case by simp
next
  case (Cons row rows)
  show ?case
  proof (cases "diff_row wr env known clr row (s, w, style)")
    case (Inl a)
    obtain e0 s0 where a: "a = (e0, s0)" by (cases a)
    from diff_row_Inl [of wr env known clr row s w style e0 s0] Inl a have "s0 = s" by simp
    with Inl a show ?thesis by auto
  next
    case (Inr b)
    obtain s1 w1 style1 brk where b: "b = ((s1, w1, style1), brk)" by (cases b) auto
    from diff_row_Inr [of wr env known clr row s w style s1 w1 style1 brk] Inr b
    have f: "desired s1 = desired s" "actual s1 = actual s" by simp_all
    show ?thesis
    proof (cases brk)
      case True
      with Inr b f show ?thesis by auto
    next
      case False
      with Inr b f Cons.IH [of s1 w1 style1] show ?thesis by auto
    qed
  qed
qed

lemma s_update_Inr:
  assumes "s_update wr env s w = Inr (s', w')"
  shows "desired s' = desired s \<and> actual s' = desired s"
proof -
  from assms obtain s1 w1 where c: "clear_screen_step wr s w = Inr (s1, w1)"
    by (auto simp: s_update_def split: sum.splits)
  let ?changed = "actual_width s1 \<noteq> term_width env"
  let ?s2 = "if ?changed then s1\<lparr>need_clear_lines := True\<rparr> else s1"
  have d2: "desired ?s2 = desired s" using clear_screen_step_Inr [OF c] by simp
  from assms c obtain s3 w3 style where
    r: "diff_rows wr env
          (if ?changed then map forget_line (line_datas (actual ?s2)) else line_datas (actual ?s2))
          (need_clear_lines ?s2)
          [0..<max (length (line_datas (desired ?s2))) (length (line_datas (actual ?s2)))]
          (?s2, w1, highlight_default) = Inr (s3, w3, style)"
    and s': "s' = s3\<lparr>actual := desired s3, need_clear_lines := False,
                     need_clear_screen := False, actual_width := term_width env\<rparr>"
    by (auto simp: s_update_def Let_def split: sum.splits prod.splits)
  from diff_rows_frame [THEN conjunct2, rule_format, OF r] d2
  have "desired s3 = desired s" by simp
  with s' show ?thesis by simp
qed

text \<open>
  Claim C3. After a completed \<open>s_write\<close> the desired grid is the one the layout pass
  computed in that call, the actual grid equals it, and the actual cursor is the desired
  cursor, the one the render moved to.
\<close>

theorem s_write_actual_equals_desired:
  assumes "s_write layout_pass wr env inp s w = Inr (s', w')"
  shows "desired s' = lr_desired (layout_pass inp (term_width env)) \<and>
         line_datas (actual s') = line_datas (desired s') \<and>
         cursor (actual s') = cursor (desired s')"
proof -
  let ?s0 = "if post_buff_1 s \<noteq> stat_1 env \<or> post_buff_2 s \<noteq> stat_2 env
             then s_reset screen_reset_abandon_line s else s"
  let ?lr = "layout_pass inp (term_width env)"
  let ?s2 = "?s0\<lparr>prev_buff_1 := stat_1 env, prev_buff_2 := stat_2 env,
                 desired := lr_desired ?lr, autosuggestion_is_truncated := lr_truncated ?lr\<rparr>"
  from assms obtain s3 where u: "s_update wr env ?s2 w = Inr (s3, w')"
    and s': "s' = s3\<lparr>actual_left_prompt := left_prompt inp,
                     last_right_prompt_width := lr_right_prompt_width ?lr\<rparr>"
    by (auto simp: s_write_def Let_def split: sum.splits)
  from s_update_Inr [OF u] have "desired s3 = lr_desired ?lr" "actual s3 = lr_desired ?lr"
    by simp_all
  with s' show ?thesis by simp
qed

theorem s_write_actual_equals_desired_witness:
  "s_write hello_layout buffering_writer (vt_env 0) hello_input screen_t_new [] =
     Inr (hello_screen, hello_output) \<and>
   line_datas (actual hello_screen) = [hello_line] \<and>
   cursor (actual hello_screen) = \<lparr>cursor_x = 9, cursor_y = 0\<rparr>"
proof -
  have h: "s_write hello_layout buffering_writer (vt_env 0) hello_input screen_t_new [] =
      Inr (hello_screen, hello_output)" by code_simp
  from s_write_actual_equals_desired [OF h] h show ?thesis
    by (simp add: hello_layout_def)
qed

end
